theory Spec2Isabelle
  imports Complex_Main
begin

section \<open>Values of the Bingo server (src/server.js)\<close>

text \<open>
  \<^verbatim>\<open>Math.random()\<close> returns a number \<open>r\<close> with \<open>0 \<le> r < 1\<close>. The type \<open>rand\<close>
  holds exactly these values (as reals), so every function that consumes randomness takes
  the values it would have drawn as an argument.
\<close>

typedef rand = "{r::real. 0 \<le> r \<and> r < 1}"
  by (rule exI [of _ 0]) simp

setup_lifting type_definition_rand

text \<open>\<^verbatim>\<open>Math.floor(r * n)\<close> for a random \<open>r\<close>.\<close>

lift_definition random_index :: "rand \<Rightarrow> nat \<Rightarrow> nat"
  is "\<lambda>r n. nat \<lfloor>r * real n\<rfloor>" .

text \<open>The concrete random value \<open>p / q\<close> (for \<open>p < q\<close>; \<open>0\<close> otherwise).\<close>

lift_definition rand_frac :: "nat \<Rightarrow> nat \<Rightarrow> rand"
  is "\<lambda>p q. if p < q then real p / real q else 0"
  by simp

text \<open>An uncaught exception of a handler. The only one the handlers can raise is the
  \<^verbatim>\<open>TypeError\<close> of reading a property of \<^verbatim>\<open>undefined\<close> or \<^verbatim>\<open>null\<close>.\<close>

datatype js_error = TypeError

text \<open>
  A cell is the object \<^verbatim>\<open>{ number, markedBy }\<close>. \<open>number\<close> is the value
  \<^verbatim>\<open>numbers.splice(i, 1)[0]\<close>: an integer, or \<^verbatim>\<open>undefined\<close> (\<open>None\<close>) when
  nothing was removed. \<open>markedBy\<close> is \<^verbatim>\<open>null\<close> (\<open>None\<close>) or a string: a socket id
  or \<^verbatim>\<open>"free"\<close>.
\<close>

record cell =
  number :: "int option"
  markedBy :: "string option"

text \<open>A board is an array of rows; an entry is \<^verbatim>\<open>null\<close> (\<open>None\<close>) or a cell object.\<close>

type_synonym board = "cell option list list"

section \<open>generateBoard\<close>

definition ranges :: "(int \<times> int) list" where
  "ranges = [(1, 15), (16, 30), (31, 45), (46, 60), (61, 75)]"

text \<open>\<^verbatim>\<open>xs.splice(i, 1)[0]\<close> together with the array left behind.\<close>

definition splice1 :: "nat \<Rightarrow> 'a list \<Rightarrow> 'a option \<times> 'a list" where
  "splice1 i xs = (if i < length xs then Some (xs ! i) else None, take i xs @ drop (Suc i) xs)"

text \<open>\<^verbatim>\<open>board[row][col] = v\<close>, used only where \<open>row\<close> and \<open>col\<close> are inside the
  5x5 array (loop counters below 5, or an index whose read has just succeeded).\<close>

definition set_cell :: "board \<Rightarrow> nat \<Rightarrow> nat \<Rightarrow> cell option \<Rightarrow> board" where
  "set_cell b row col v = b[row := (b ! row)[col := v]]"

text \<open>The inner loop over \<open>row\<close>; the \<open>k\<close>-th call of \<^verbatim>\<open>Math.random()\<close> inside
  \<^verbatim>\<open>generateBoard\<close> returns \<open>rnd k\<close>, and the call for \<open>(col, row)\<close> is number
  \<open>5 * col + row\<close>.\<close>

fun fill_rows :: "(nat \<Rightarrow> rand) \<Rightarrow> nat \<Rightarrow> nat list \<Rightarrow> int list \<Rightarrow> board \<Rightarrow> board" where
  "fill_rows rnd col [] numbers b = b"
| "fill_rows rnd col (row # rows) numbers b =
     (case splice1 (random_index (rnd (5 * col + row)) (length numbers)) numbers of
        (num, numbers') \<Rightarrow>
          fill_rows rnd col rows numbers'
            (set_cell b row col (Some \<lparr>number = num, markedBy = None\<rparr>)))"

text \<open>The outer loop over \<open>col\<close>.\<close>

fun fill_cols :: "(nat \<Rightarrow> rand) \<Rightarrow> nat list \<Rightarrow> board \<Rightarrow> board" where
  "fill_cols rnd [] b = b"
| "fill_cols rnd (col # cols) b =
     (case ranges ! col of
        (mn, mx) \<Rightarrow>
          fill_cols rnd cols
            (fill_rows rnd col [0..<5] (map (\<lambda>i. int i + mn) [0..<nat (mx - mn + 1)]) b))"

definition generateBoard :: "(nat \<Rightarrow> rand) \<Rightarrow> js_error + board" where
  "generateBoard rnd =
     (let b = fill_cols rnd [0..<5] (replicate 5 (replicate 5 None)) in
      case b ! 2 ! 2 of
        None \<Rightarrow> Inl TypeError
      | Some c \<Rightarrow> Inr (set_cell b 2 2 (Some (c\<lparr>markedBy := Some ''free''\<rparr>))))"

section \<open>Rooms and the registry\<close>

record player =
  player_id :: string
  name :: string
  board :: board

text \<open>\<open>players\<close> is the object keyed by socket id; \<open>winnerId\<close> is \<^verbatim>\<open>null\<close> or a
  socket id.\<close>

record game =
  game_id :: string
  hostId :: string
  players :: "string \<rightharpoonup> player"
  calledNumbers :: "int list"
  started :: bool
  winnerId :: "string option"

text \<open>The process-wide \<^verbatim>\<open>games\<close> map.\<close>

type_synonym games = "string \<rightharpoonup> game"

text \<open>The error strings of the acknowledgements, in the order of the source:
  "Room not found", "Game already started", "Only host can start",
  "Only host can call numbers", "All numbers called", "Not in game", "Invalid cell",
  "Not a valid bingo".\<close>

datatype failure =
  RoomNotFound | GameAlreadyStarted | OnlyHostCanStart | OnlyHostCanCall
  | AllNumbersCalled | NotInGame | InvalidCell | NotAValidBingo

text \<open>What the handler passes to its callback \<^verbatim>\<open>cb\<close>: \<^verbatim>\<open>{ ok: true, ... }\<close> or
  \<^verbatim>\<open>{ ok: false, error }\<close>. \<open>NoReply\<close> is for the disconnect handler, which has no
  callback.\<close>

datatype response =
  Ok | OkRoom string | OkGame game | OkNumber int | Fail failure | NoReply

text \<open>A handler either throws (the exception is not caught anywhere in the source) or
  calls back and leaves a registry.\<close>

type_synonym result = "js_error + response \<times> games"

section \<open>The handlers\<close>

text \<open>\<^verbatim>\<open>create-room\<close>. \<open>roomId\<close> is the string that
  \<^verbatim>\<open>Math.random().toString(36).substring(2, 8)\<close> produced; the conversion itself is
  not modelled.\<close>

definition create_room :: "string \<Rightarrow> string \<Rightarrow> string \<Rightarrow> (nat \<Rightarrow> rand) \<Rightarrow> games \<Rightarrow> result" where
  "create_room sid nm roomId rnd gs =
     (case generateBoard rnd of
        Inl e \<Rightarrow> Inl e
      | Inr b \<Rightarrow>
          let player = \<lparr>player_id = sid, name = nm, board = b\<rparr>;
              game = \<lparr>game_id = roomId, hostId = sid, players = [sid \<mapsto> player],
                      calledNumbers = [], started = False, winnerId = None\<rparr>
          in Inr (OkRoom roomId, gs(roomId \<mapsto> game)))"

definition join_room :: "string \<Rightarrow> string \<Rightarrow> string \<Rightarrow> (nat \<Rightarrow> rand) \<Rightarrow> games \<Rightarrow> result" where
  "join_room sid roomId nm rnd gs =
     (case gs roomId of
        None \<Rightarrow> Inr (Fail RoomNotFound, gs)
      | Some game \<Rightarrow>
          if started game then Inr (Fail GameAlreadyStarted, gs)
          else
            (case generateBoard rnd of
               Inl e \<Rightarrow> Inl e
             | Inr b \<Rightarrow>
                 let player = \<lparr>player_id = sid, name = nm, board = b\<rparr>;
                     game' = game\<lparr>players := (players game)(sid \<mapsto> player)\<rparr>
                 in Inr (OkGame game', gs(roomId \<mapsto> game'))))"

definition start_game :: "string \<Rightarrow> string \<Rightarrow> games \<Rightarrow> result" where
  "start_game sid roomId gs =
     (case gs roomId of
        None \<Rightarrow> Inr (Fail RoomNotFound, gs)
      | Some game \<Rightarrow>
          if sid \<noteq> hostId game then Inr (Fail OnlyHostCanStart, gs)
          else Inr (Ok, gs(roomId \<mapsto> game\<lparr>started := True, calledNumbers := []\<rparr>)))"

text \<open>\<^verbatim>\<open>call-number\<close>; \<open>r\<close> is the value of its one \<^verbatim>\<open>Math.random()\<close>.\<close>

definition availableNumbers :: "int list \<Rightarrow> int list" where
  "availableNumbers called = filter (\<lambda>num. num \<notin> set called) (map (\<lambda>i. int i + 1) [0..<75])"

definition call_number :: "string \<Rightarrow> string \<Rightarrow> rand \<Rightarrow> games \<Rightarrow> result" where
  "call_number sid roomId r gs =
     (case gs roomId of
        None \<Rightarrow> Inr (Fail RoomNotFound, gs)
      | Some game \<Rightarrow>
          if sid \<noteq> hostId game then Inr (Fail OnlyHostCanCall, gs)
          else
            let available = availableNumbers (calledNumbers game) in
            if length available = 0 then Inr (Fail AllNumbersCalled, gs)
            else
              let number = available ! random_index r (length available) in
              Inr (OkNumber number,
                   gs(roomId \<mapsto> game\<lparr>calledNumbers := calledNumbers game @ [number]\<rparr>)))"

text \<open>\<^verbatim>\<open>xs[i]\<close> for an integer \<open>i\<close>: \<^verbatim>\<open>undefined\<close> (\<open>None\<close>) outside the array.\<close>

definition js_nth :: "'a list \<Rightarrow> int \<Rightarrow> 'a option" where
  "js_nth xs i = (if 0 \<le> i \<and> i < int (length xs) then Some (xs ! nat i) else None)"

text \<open>\<^verbatim>\<open>row[i]\<close> on a row of a board: \<^verbatim>\<open>undefined\<close> and \<^verbatim>\<open>null\<close> are both
  \<open>None\<close> (the handlers treat them alike: both are falsy, and reading a property of
  either throws).\<close>

definition row_nth :: "cell option list \<Rightarrow> int \<Rightarrow> cell option" where
  "row_nth xs i = (case js_nth xs i of None \<Rightarrow> None | Some v \<Rightarrow> v)"

text \<open>The truth value of \<^verbatim>\<open>cell.markedBy\<close>: \<^verbatim>\<open>null\<close> and the empty string are
  falsy.\<close>

definition truthy :: "string option \<Rightarrow> bool" where
  "truthy m = (case m of None \<Rightarrow> False | Some s \<Rightarrow> s \<noteq> [])"

text \<open>\<^verbatim>\<open>mark-cell\<close>, with \<open>row\<close> and \<open>col\<close> integers. \<^verbatim>\<open>player.board[row]\<close> is
  \<^verbatim>\<open>undefined\<close> for a row outside the board, and indexing it with \<^verbatim>\<open>[col]\<close> throws.\<close>

definition mark_cell :: "string \<Rightarrow> string \<Rightarrow> int \<Rightarrow> int \<Rightarrow> games \<Rightarrow> result" where
  "mark_cell sid roomId row col gs =
     (case gs roomId of
        None \<Rightarrow> Inr (Fail RoomNotFound, gs)
      | Some game \<Rightarrow>
          (case players game sid of
             None \<Rightarrow> Inr (Fail NotInGame, gs)
           | Some player \<Rightarrow>
               (case js_nth (board player) row of
                  None \<Rightarrow> Inl TypeError
                | Some cells \<Rightarrow>
                    (case row_nth cells col of
                       None \<Rightarrow> Inr (Fail InvalidCell, gs)
                     | Some cell \<Rightarrow>
                         let cell' = cell\<lparr>markedBy := (if truthy (markedBy cell) then None else Some sid)\<rparr>;
                             player' = player\<lparr>board := set_cell (board player) (nat row) (nat col) (Some cell')\<rparr>
                         in Inr (Ok, gs(roomId \<mapsto> game\<lparr>players := (players game)(sid \<mapsto> player')\<rparr>))))))"

text \<open>\<^verbatim>\<open>cells.every((c) => c.markedBy === socket.id || c.markedBy === "free")\<close>:
  stops at the first cell that fails, throws on an entry that is not an object.\<close>

fun checkLine :: "string \<Rightarrow> cell option list \<Rightarrow> js_error + bool" where
  "checkLine sid [] = Inr True"
| "checkLine sid (None # cs) = Inl TypeError"
| "checkLine sid (Some c # cs) =
     (if markedBy c = Some sid \<or> markedBy c = Some ''free'' then checkLine sid cs else Inr False)"

text \<open>\<^verbatim>\<open>xs.some(f)\<close> and \<^verbatim>\<open>a || b\<close> on results that may throw.\<close>

fun some_js :: "('a \<Rightarrow> js_error + bool) \<Rightarrow> 'a list \<Rightarrow> js_error + bool" where
  "some_js f [] = Inr False"
| "some_js f (x # xs) =
     (case f x of Inl e \<Rightarrow> Inl e | Inr t \<Rightarrow> if t then Inr True else some_js f xs)"

definition or_js :: "js_error + bool \<Rightarrow> js_error + bool \<Rightarrow> js_error + bool" where
  "or_js a b = (case a of Inl e \<Rightarrow> Inl e | Inr t \<Rightarrow> if t then Inr True else b)"

text \<open>\<^verbatim>\<open>[0, 1, 2, 3, 4].map((i) => board[i][f(i)])\<close>: throws when \<^verbatim>\<open>board[i]\<close> is
  \<^verbatim>\<open>undefined\<close>.\<close>

fun map_cells :: "board \<Rightarrow> (int \<Rightarrow> int) \<Rightarrow> int list \<Rightarrow> js_error + cell option list" where
  "map_cells b f [] = Inr []"
| "map_cells b f (i # is) =
     (case js_nth b i of
        None \<Rightarrow> Inl TypeError
      | Some cells \<Rightarrow>
          (case map_cells b f is of Inl e \<Rightarrow> Inl e | Inr cs \<Rightarrow> Inr (row_nth cells (f i) # cs)))"

definition hasBingo :: "string \<Rightarrow> board \<Rightarrow> js_error + bool" where
  "hasBingo sid b =
     or_js (some_js (checkLine sid) b)
       (or_js (some_js (\<lambda>c. checkLine sid (map (\<lambda>r. row_nth r c) b)) [0, 1, 2, 3, 4])
          (or_js (case map_cells b (\<lambda>i. i) [0, 1, 2, 3, 4] of
                    Inl e \<Rightarrow> Inl e | Inr cs \<Rightarrow> checkLine sid cs)
                 (case map_cells b (\<lambda>i. 4 - i) [0, 1, 2, 3, 4] of
                    Inl e \<Rightarrow> Inl e | Inr cs \<Rightarrow> checkLine sid cs)))"

definition claim_bingo :: "string \<Rightarrow> string \<Rightarrow> games \<Rightarrow> result" where
  "claim_bingo sid roomId gs =
     (case gs roomId of
        None \<Rightarrow> Inr (Fail RoomNotFound, gs)
      | Some game \<Rightarrow>
          (case players game sid of
             None \<Rightarrow> Inr (Fail NotInGame, gs)
           | Some player \<Rightarrow>
               (case hasBingo sid (board player) of
                  Inl e \<Rightarrow> Inl e
                | Inr t \<Rightarrow>
                    if t then Inr (Ok, gs(roomId \<mapsto> game\<lparr>winnerId := Some sid\<rparr>))
                    else Inr (Fail NotAValidBingo, gs))))"

text \<open>\<^verbatim>\<open>disconnect\<close>: the socket leaves every room it is in; a room left without a
  player is deleted.\<close>

definition disconnect :: "string \<Rightarrow> games \<Rightarrow> result" where
  "disconnect sid gs =
     Inr (NoReply,
          (\<lambda>roomId.
             case gs roomId of
               None \<Rightarrow> None
             | Some game \<Rightarrow>
                 (case players game sid of
                    None \<Rightarrow> Some game
                  | Some _ \<Rightarrow>
                      let ps = (players game)(sid := None) in
                      if dom ps = {} then None else Some (game\<lparr>players := ps\<rparr>))))"

text \<open>An event of a socket, with the random values its handler draws.\<close>

datatype action =
  CreateRoom string string string "nat \<Rightarrow> rand"
  | JoinRoom string string string "nat \<Rightarrow> rand"
  | StartGame string string
  | CallNumber string string rand
  | MarkCell string string int int
  | ClaimBingo string string
  | Disconnect string

fun step :: "games \<Rightarrow> action \<Rightarrow> result" where
  "step gs (CreateRoom sid nm roomId rnd) = create_room sid nm roomId rnd gs"
| "step gs (JoinRoom sid roomId nm rnd) = join_room sid roomId nm rnd gs"
| "step gs (StartGame sid roomId) = start_game sid roomId gs"
| "step gs (CallNumber sid roomId r) = call_number sid roomId r gs"
| "step gs (MarkCell sid roomId row col) = mark_cell sid roomId row col gs"
| "step gs (ClaimBingo sid roomId) = claim_bingo sid roomId gs"
| "step gs (Disconnect sid) = disconnect sid gs"

text \<open>The registries the server can be in: it starts empty, and every event whose handler
  returns leads to the next one.\<close>

inductive reachable :: "games \<Rightarrow> bool" where
  reachable_empty: "reachable Map.empty"
| reachable_step: "reachable gs \<Longrightarrow> step gs a = Inr (resp, gs') \<Longrightarrow> reachable gs'"

text \<open>A sequence of events from a given registry; a throw ends the process.\<close>

fun run :: "games \<Rightarrow> action list \<Rightarrow> js_error + games" where
  "run gs [] = Inr gs"
| "run gs (a # as) = (case step gs a of Inl e \<Rightarrow> Inl e | Inr (resp, gs') \<Rightarrow> run gs' as)"

text \<open>The answers to a sequence of events, in order, up to the first throw.\<close>

fun replies :: "games \<Rightarrow> action list \<Rightarrow> response list" where
  "replies gs [] = []"
| "replies gs (a # as) =
     (case step gs a of Inl e \<Rightarrow> [] | Inr (resp, gs') \<Rightarrow> resp # replies gs' as)"

section \<open>Observations and the properties stated about the server\<close>

text \<open>The numbers drawn by a sequence of splices, in the order drawn.\<close>

fun draws :: "rand list \<Rightarrow> 'a list \<Rightarrow> 'a option list" where
  "draws [] numbers = []"
| "draws (r # rs) numbers =
     (case splice1 (random_index r (length numbers)) numbers of
        (num, numbers') \<Rightarrow> num # draws rs numbers')"

text \<open>The five numbers drawn for column \<open>col\<close>, by row.\<close>

definition column_draws :: "(nat \<Rightarrow> rand) \<Rightarrow> nat \<Rightarrow> int option list" where
  "column_draws rnd col =
     draws (map (\<lambda>row. rnd (5 * col + row)) [0..<5])
       (map (\<lambda>i. int i + fst (ranges ! col))
          [0..<nat (snd (ranges ! col) - fst (ranges ! col) + 1)])"

text \<open>The board that \<open>generateBoard\<close> returns, cell by cell.\<close>

definition generated :: "(nat \<Rightarrow> rand) \<Rightarrow> board" where
  "generated rnd =
     map (\<lambda>row. map (\<lambda>col. Some \<lparr>number = column_draws rnd col ! row,
                                  markedBy = (if row = 2 \<and> col = 2 then Some ''free'' else None)\<rparr>)
                [0..<5]) [0..<5]"

text \<open>A 5x5 grid of cell objects.\<close>

definition wf_board :: "board \<Rightarrow> bool" where
  "wf_board b = (length b = 5 \<and> (\<forall>cells \<in> set b. length cells = 5 \<and> None \<notin> set cells))"

text \<open>The number held by the cell at \<open>(r, c)\<close>, and the numbers of column \<open>c\<close> by row.\<close>

definition cell_number :: "board \<Rightarrow> nat \<Rightarrow> nat \<Rightarrow> int option" where
  "cell_number b r c = (case b ! r ! c of None \<Rightarrow> None | Some cell \<Rightarrow> number cell)"

definition column_numbers :: "board \<Rightarrow> nat \<Rightarrow> int option list" where
  "column_numbers b c = map (\<lambda>r. cell_number b r c) [0..<5]"

text \<open>The win rule in the words of the specification: a line is complete for an actor
  when every cell of it is marked by the actor or is \<^verbatim>\<open>"free"\<close>; a board wins with a
  complete row, a complete column, the main diagonal or the anti-diagonal.\<close>

definition complete_for :: "string \<Rightarrow> cell option list \<Rightarrow> bool" where
  "complete_for sid cells =
     (\<forall>c \<in> set cells.
        case c of None \<Rightarrow> False
        | Some cell \<Rightarrow> markedBy cell = Some sid \<or> markedBy cell = Some ''free'')"

definition win :: "string \<Rightarrow> board \<Rightarrow> bool" where
  "win sid b =
     ((\<exists>r \<in> set [0..<5]. complete_for sid (map (\<lambda>c. b ! r ! c) [0..<5]))
      \<or> (\<exists>c \<in> set [0..<5]. complete_for sid (map (\<lambda>r. b ! r ! c) [0..<5]))
      \<or> complete_for sid (map (\<lambda>i. b ! i ! i) [0..<5])
      \<or> complete_for sid (map (\<lambda>i. b ! i ! (4 - i)) [0..<5]))"

text \<open>A claim of \<open>sid\<close> on room \<open>roomId\<close> whose win check succeeds.\<close>

definition verified_win :: "games \<Rightarrow> string \<Rightarrow> string \<Rightarrow> bool" where
  "verified_win gs roomId sid =
     (case gs roomId of
        None \<Rightarrow> False
      | Some game \<Rightarrow>
          (case players game sid of
             None \<Rightarrow> False
           | Some player \<Rightarrow> hasBingo sid (board player) = Inr True))"

text \<open>
  The numbers returned by the successful \<^verbatim>\<open>call-number\<close> events on room \<open>roomId\<close>
  since its \<open>calledNumbers\<close> was last emptied. \<open>log_step\<close> is the effect of one answered
  event on that list: \<^verbatim>\<open>create-room\<close> under the code \<open>roomId\<close> and an accepted
  \<^verbatim>\<open>start-game\<close> on the room start it anew, a number returned for the room is appended,
  and every other event leaves it as it is. \<open>called_log\<close> follows a sequence of events up
  to the first throw; \<open>returned_since_reset\<close> starts from the empty registry.
\<close>

fun log_step :: "string \<Rightarrow> int list \<Rightarrow> action \<Rightarrow> response \<Rightarrow> int list" where
  "log_step roomId seen (CreateRoom sid nm rid rnd) resp = (if rid = roomId then [] else seen)"
| "log_step roomId seen (StartGame sid rid) resp = (if rid = roomId \<and> resp = Ok then [] else seen)"
| "log_step roomId seen (CallNumber sid rid r) (OkNumber n) =
     (if rid = roomId then seen @ [n] else seen)"
| "log_step roomId seen a resp = seen"

fun called_log :: "string \<Rightarrow> int list \<Rightarrow> games \<Rightarrow> action list \<Rightarrow> int list" where
  "called_log roomId seen gs [] = seen"
| "called_log roomId seen gs (a # as) =
     (case step gs a of
        Inl e \<Rightarrow> seen
      | Inr (resp, gs') \<Rightarrow> called_log roomId (log_step roomId seen a resp) gs' as)"

definition returned_since_reset :: "string \<Rightarrow> action list \<Rightarrow> int list" where
  "returned_since_reset roomId acts = called_log roomId [] Map.empty acts"

text \<open>The room's phase flag set to \<open>s\<close>, everything else as it is.\<close>

definition set_started :: "bool \<Rightarrow> string \<Rightarrow> games \<Rightarrow> games" where
  "set_started s roomId gs =
     (case gs roomId of None \<Rightarrow> gs | Some game \<Rightarrow> gs(roomId \<mapsto> game\<lparr>started := s\<rparr>))"

definition map_registry :: "(games \<Rightarrow> games) \<Rightarrow> result \<Rightarrow> result" where
  "map_registry f res = (case res of Inl e \<Rightarrow> Inl e | Inr (resp, gs) \<Rightarrow> Inr (resp, f gs))"

text \<open>The cell at \<open>(row, col)\<close> of the board of player \<open>sid\<close> in room \<open>roomId\<close>.\<close>

definition board_cell :: "games \<Rightarrow> string \<Rightarrow> string \<Rightarrow> nat \<Rightarrow> nat \<Rightarrow> cell option" where
  "board_cell gs roomId sid row col =
     (case gs roomId of
        None \<Rightarrow> None
      | Some game \<Rightarrow>
          (case players game sid of None \<Rightarrow> None | Some player \<Rightarrow> board player ! row ! col))"

text \<open>What is seen after a sequence of events from the empty registry: a room, a cell of a
  player's board.\<close>

definition room_after :: "action list \<Rightarrow> string \<Rightarrow> game option" where
  "room_after acts roomId = (case run Map.empty acts of Inl e \<Rightarrow> None | Inr gs \<Rightarrow> gs roomId)"

definition cell_after :: "action list \<Rightarrow> string \<Rightarrow> string \<Rightarrow> nat \<Rightarrow> nat \<Rightarrow> cell option" where
  "cell_after acts roomId sid row col =
     (case run Map.empty acts of Inl e \<Rightarrow> None | Inr gs \<Rightarrow> board_cell gs roomId sid row col)"

text \<open>A cell of a generated board.\<close>

definition generated_cell :: "(nat \<Rightarrow> rand) \<Rightarrow> nat \<Rightarrow> nat \<Rightarrow> cell option" where
  "generated_cell rnd row col = (case generateBoard rnd of Inl e \<Rightarrow> None | Inr b \<Rightarrow> b ! row ! col)"

text \<open>Concrete random values: every \<^verbatim>\<open>Math.random()\<close> returns 0, so every draw takes
  the first number left.\<close>

definition first_draws :: "nat \<Rightarrow> rand" where
  "first_draws k = rand_frac 0 1"

text \<open>The registry after socket \<open>alice\<close> has created room \<open>room01\<close> with these draws.\<close>

definition alice_player :: player where
  "alice_player = \<lparr>player_id = ''alice'', name = ''Alice'', board = generated first_draws\<rparr>"

definition alice_room :: game where
  "alice_room = \<lparr>game_id = ''room01'', hostId = ''alice'', players = [''alice'' \<mapsto> alice_player],
                  calledNumbers = [], started = False, winnerId = None\<rparr>"

definition alice_games :: games where
  "alice_games = [''room01'' \<mapsto> alice_room]"

text \<open>The numbers 1, ..., \<open>k\<close> in order.\<close>

definition first_numbers :: "nat \<Rightarrow> int list" where
  "first_numbers k = map (\<lambda>i. int i + 1) [0..<k]"

text \<open>Alice's room with the numbers \<open>called\<close> called.\<close>

definition called_games :: "int list \<Rightarrow> games" where
  "called_games called = [''room01'' \<mapsto> alice_room\<lparr>calledNumbers := called\<rparr>]"

text \<open>Alice creates her room and calls 75 times, every random value 0.\<close>

definition calls75 :: "action list" where
  "calls75 =
     CreateRoom ''alice'' ''Alice'' ''room01'' first_draws
       # replicate 75 (CallNumber ''alice'' ''room01'' (rand_frac 0 1))"

text \<open>The board generated with these draws after its owner \<open>sid\<close> has marked the cells
  (2, 0), (2, 1), (2, 3) and (2, 4): with the free center, row 2 is complete.\<close>

definition row2_board :: "string \<Rightarrow> board" where
  "row2_board sid =
     (generated first_draws)
       [2 := [Some \<lparr>number = Some 3, markedBy = Some sid\<rparr>,
              Some \<lparr>number = Some 18, markedBy = Some sid\<rparr>,
              Some \<lparr>number = Some 33, markedBy = Some ''free''\<rparr>,
              Some \<lparr>number = Some 48, markedBy = Some sid\<rparr>,
              Some \<lparr>number = Some 63, markedBy = Some sid\<rparr>]]"

definition row2_player :: "string \<Rightarrow> string \<Rightarrow> player" where
  "row2_player sid nm = \<lparr>player_id = sid, name = nm, board = row2_board sid\<rparr>"

text \<open>Room \<open>room01\<close> with the players \<open>alice\<close> (host) and \<open>bob\<close>, both with row 2
  complete, and the events that lead there from the empty registry.\<close>

definition row2_room :: game where
  "row2_room =
     alice_room\<lparr>players := [''alice'' \<mapsto> row2_player ''alice'' ''Alice'',
                             ''bob'' \<mapsto> row2_player ''bob'' ''Bob'']\<rparr>"

definition row2_games :: games where
  "row2_games = [''room01'' \<mapsto> row2_room]"

definition both_complete :: "action list" where
  "both_complete =
     [CreateRoom ''alice'' ''Alice'' ''room01'' first_draws,
      JoinRoom ''bob'' ''room01'' ''Bob'' first_draws,
      MarkCell ''alice'' ''room01'' 2 0, MarkCell ''alice'' ''room01'' 2 1,
      MarkCell ''alice'' ''room01'' 2 3, MarkCell ''alice'' ''room01'' 2 4,
      MarkCell ''bob'' ''room01'' 2 0, MarkCell ''bob'' ''room01'' 2 1,
      MarkCell ''bob'' ''room01'' 2 3, MarkCell ''bob'' ''room01'' 2 4]"

text \<open>The same room after the claim of \<open>alice\<close> has been accepted.\<close>

definition alice_won_games :: games where
  "alice_won_games = [''room01'' \<mapsto> row2_room\<lparr>winnerId := Some ''alice''\<rparr>]"

section \<open>Random indices and the generated board\<close>

text \<open>\<^verbatim>\<open>Math.floor(Math.random() * n)\<close> is an index of an array of length \<open>n\<close>.\<close>

lemma random_index_less: "0 < n \<Longrightarrow> random_index r n < n"
proof (transfer)
  fix n :: nat and r :: real
  assume n: "0 < n" and r: "0 \<le> r \<and> r < 1"
  then have "r * real n < real n" by simp
  then have "\<lfloor>r * real n\<rfloor> < int n" by (simp add: floor_less_iff)
  moreover have "0 \<le> \<lfloor>r * real n\<rfloor>" using r by simp
  ultimately show "nat \<lfloor>r * real n\<rfloor> < n" by linarith
qed

lemma random_index_rand_frac: "random_index (rand_frac p q) n = (if p < q then (p * n) div q else 0)"
proof (transfer)
  fix p q n :: nat
  show "nat \<lfloor>(if p < q then real p / real q else 0) * real n\<rfloor> = (if p < q then p * n div q else 0)"
  proof (cases "p < q")
    case True
    have "real p / real q * real n = real (p * n) / real q" by simp
    then have "\<lfloor>real p / real q * real n\<rfloor> = int ((p * n) div q)"
      by (simp only: floor_divide_of_nat_eq)
    with True show ?thesis by simp
  next
    case False then show ?thesis by simp
  qed
qed

text \<open>The loops of \<open>generateBoard\<close> write the numbers drawn for column \<open>col\<close> into
  column \<open>col\<close> and leave the other columns alone.\<close>

lemma length_set_cell [simp]: "length (set_cell b r c v) = length b"
  by (simp add: set_cell_def)

lemma length_set_cell_nth [simp]: "length (set_cell b r c v ! r') = length (b ! r')"
  by (cases "r < length b"; cases "r' = r") (simp_all add: set_cell_def list_update_beyond)

lemma set_cell_nth:
  "set_cell b r c v ! r' ! c' =
     (if r' = r \<and> c' = c \<and> r < length b \<and> c < length (b ! r) then v else b ! r' ! c')"
  by (cases "r < length b"; cases "r' = r"; cases "c' = c"; cases "c < length (b ! r)")
     (simp_all add: set_cell_def list_update_beyond)

lemma length_draws [simp]: "length (draws rs numbers) = length rs"
  by (induction rs arbitrary: numbers) (simp_all add: splice1_def)

lemma length_fill_rows [simp]: "length (fill_rows rnd col rows numbers b) = length b"
  by (induction rows arbitrary: numbers b) (simp_all add: splice1_def)

lemma length_fill_rows_nth [simp]:
  "length (fill_rows rnd col rows numbers b ! r) = length (b ! r)"
  by (induction rows arbitrary: numbers b) (simp_all add: splice1_def)

lemma fill_rows_other:
  "c \<noteq> col \<or> r \<notin> set rows \<Longrightarrow> fill_rows rnd col rows numbers b ! r ! c = b ! r ! c"
  by (induction rows arbitrary: numbers b) (auto simp: splice1_def set_cell_nth)

lemma fill_rows_drawn:
  assumes "distinct rows" and "\<forall>row \<in> set rows. row < length b \<and> col < length (b ! row)"
    and "i < length rows"
  shows "fill_rows rnd col rows numbers b ! (rows ! i) ! col =
           Some \<lparr>number = draws (map (\<lambda>row. rnd (5 * col + row)) rows) numbers ! i, markedBy = None\<rparr>"
  using assms
proof (induction rows arbitrary: numbers b i)
  case Nil
  then show ?case by simp
next
  case (Cons row rows)
  show ?case
  proof (cases i)
    case 0
    with Cons.prems show ?thesis
      by (simp add: splice1_def fill_rows_other set_cell_nth)
  next
    case (Suc j)
    with Cons.prems Cons.IH [of "set_cell b row col v" j for v] show ?thesis
      by (simp add: splice1_def)
  qed
qed

lemma fill_rows_upt:
  assumes "length b = 5" and "\<forall>r<5. length (b ! r) = 5" and "r < 5" and "col < 5"
  shows "fill_rows rnd col [0..<5] numbers b ! r ! c =
           (if c = col then Some \<lparr>number = draws (map (\<lambda>row. rnd (5 * col + row)) [0..<5]) numbers ! r,
                                  markedBy = None\<rparr>
            else b ! r ! c)"
proof (cases "c = col")
  case True
  have "fill_rows rnd col [0..<5] numbers b ! ([0..<5] ! r) ! col =
          Some \<lparr>number = draws (map (\<lambda>row. rnd (5 * col + row)) [0..<5]) numbers ! r, markedBy = None\<rparr>"
    by (rule fill_rows_drawn) (use assms in auto)
  with True assms show ?thesis by simp
next
  case False
  then show ?thesis by (simp add: fill_rows_other)
qed

lemma fill_cols_nth:
  assumes "distinct cols" and "\<forall>col \<in> set cols. col < 5"
    and "length b = 5" and "\<forall>r<5. length (b ! r) = 5" and "r < 5"
  shows "length (fill_cols rnd cols b) = 5 \<and> length (fill_cols rnd cols b ! r) = 5 \<and>
         fill_cols rnd cols b ! r ! c =
           (if c \<in> set cols then Some \<lparr>number = column_draws rnd c ! r, markedBy = None\<rparr>
            else b ! r ! c)"
  using assms
proof (induction cols arbitrary: b)
  case Nil
  then show ?case by simp
next
  case (Cons col cols)
  obtain mn mx where mm: "ranges ! col = (mn, mx)" by (cases "ranges ! col")
  let ?b = "fill_rows rnd col [0..<5] (map (\<lambda>i. int i + mn) [0..<nat (mx - mn + 1)]) b"
  have shape: "length ?b = 5" "\<forall>r<5. length (?b ! r) = 5"
    using Cons.prems by simp_all
  have IH: "length (fill_cols rnd cols ?b) = 5 \<and> length (fill_cols rnd cols ?b ! r) = 5 \<and>
         fill_cols rnd cols ?b ! r ! c =
           (if c \<in> set cols then Some \<lparr>number = column_draws rnd c ! r, markedBy = None\<rparr>
            else ?b ! r ! c)"
    by (rule Cons.IH) (use Cons.prems shape in auto)
  have "?b ! r ! c = (if c = col then Some \<lparr>number = column_draws rnd col ! r, markedBy = None\<rparr>
            else b ! r ! c)"
    using Cons.prems mm by (simp add: fill_rows_upt column_draws_def)
  with IH mm Cons.prems show ?case by auto
qed

lemma generateBoard_eq: "generateBoard rnd = Inr (generated rnd)"
proof -
  let ?e = "replicate 5 (replicate 5 None) :: board"
  let ?b = "fill_cols rnd [0..<5] ?e"
  have cells: "length ?b = 5 \<and> length (?b ! r) = 5 \<and>
      ?b ! r ! c = (if c \<in> set [0..<5] then Some \<lparr>number = column_draws rnd c ! r, markedBy = None\<rparr>
            else ?e ! r ! c)" if "r < 5" for r c
    by (rule fill_cols_nth) (use that in auto)
  have c22: "?b ! 2 ! 2 = Some \<lparr>number = column_draws rnd 2 ! 2, markedBy = None\<rparr>"
    using cells [of 2 2] by simp
  have "set_cell ?b 2 2 (Some \<lparr>number = column_draws rnd 2 ! 2, markedBy = Some ''free''\<rparr>) = generated rnd"
  proof (rule nth_equalityI)
    show "length (set_cell ?b 2 2 (Some \<lparr>number = column_draws rnd 2 ! 2, markedBy = Some ''free''\<rparr>)) = length (generated rnd)"
      using cells [of 0 0] by (simp add: generated_def)
  next
    fix r assume "r < length (set_cell ?b 2 2 (Some \<lparr>number = column_draws rnd 2 ! 2, markedBy = Some ''free''\<rparr>))"
    then have r: "r < 5" using cells [of 0 0] by simp
    show "set_cell ?b 2 2 (Some \<lparr>number = column_draws rnd 2 ! 2, markedBy = Some ''free''\<rparr>) ! r = generated rnd ! r"
    proof (rule nth_equalityI)
      show "length (set_cell ?b 2 2 (Some \<lparr>number = column_draws rnd 2 ! 2, markedBy = Some ''free''\<rparr>) ! r) = length (generated rnd ! r)"
        using cells [of r 0] r by (simp add: generated_def)
    next
      fix c assume "c < length (set_cell ?b 2 2 (Some \<lparr>number = column_draws rnd 2 ! 2, markedBy = Some ''free''\<rparr>) ! r)"
      then have c: "c < 5" using cells [of r 0] r by simp
      show "set_cell ?b 2 2 (Some \<lparr>number = column_draws rnd 2 ! 2, markedBy = Some ''free''\<rparr>) ! r ! c = generated rnd ! r ! c"
        using cells [of r c] cells [of 2 2] r c by (auto simp add: set_cell_nth generated_def)
    qed
  qed
  with c22 show ?thesis by (simp add: generateBoard_def Let_def)
qed

text \<open>Drawing without replacement: the numbers drawn are distinct members of the array.\<close>

lemma draws_distinct:
  "length rs \<le> length numbers \<Longrightarrow> distinct numbers \<Longrightarrow>
     \<exists>ns. draws rs numbers = map Some ns \<and> distinct ns \<and> set ns \<subseteq> set numbers"
proof (induction rs arbitrary: numbers)
  case Nil
  then show ?case by simp
next
  case (Cons r rs)
  let ?i = "random_index r (length numbers)"
  let ?rest = "take ?i numbers @ drop (Suc ?i) numbers"
  from Cons.prems have pos: "0 < length numbers" by auto
  then have i: "?i < length numbers" by (rule random_index_less)
  then have split: "numbers = take ?i numbers @ numbers ! ?i # drop (Suc ?i) numbers"
    by (rule id_take_nth_drop)
  have "distinct (take ?i numbers @ numbers ! ?i # drop (Suc ?i) numbers)"
    using Cons.prems(2) split by simp
  then have d: "distinct ?rest" and notin: "numbers ! ?i \<notin> set ?rest"
    by auto
  have sub: "set ?rest \<subseteq> set numbers"
    by (auto dest: in_set_takeD in_set_dropD)
  have "length rs \<le> length ?rest" using Cons.prems(1) i by simp
  from Cons.IH [OF this d] obtain ns where
    ns: "draws rs ?rest = map Some ns" "distinct ns" "set ns \<subseteq> set ?rest" by blast
  have "draws (r # rs) numbers = map Some (numbers ! ?i # ns)"
    using i ns(1) by (simp add: splice1_def)
  moreover have "distinct (numbers ! ?i # ns)" using ns(2,3) notin by auto
  moreover have "set (numbers ! ?i # ns) \<subseteq> set numbers" using ns(3) sub i by auto
  ultimately show ?case by blast
qed

lemma column_draws_ok:
  assumes "c < 5"
  shows "\<exists>ns. column_draws rnd c = map Some ns \<and> length ns = 5 \<and> distinct ns
            \<and> (\<forall>n \<in> set ns. 15 * int c + 1 \<le> n \<and> n \<le> 15 * int c + 15)"
proof -
  let ?numbers = "map (\<lambda>i. int i + fst (ranges ! c)) [0..<nat (snd (ranges ! c) - fst (ranges ! c) + 1)]"
  let ?rs = "map (\<lambda>row. rnd (5 * c + row)) [0..<5]"
  from assms have "c = 0 \<or> c = 1 \<or> c = 2 \<or> c = 3 \<or> c = 4" by arith
  then have rng: "fst (ranges ! c) = 15 * int c + 1" "snd (ranges ! c) = 15 * int c + 15"
    by (auto simp: ranges_def)
  have len: "length ?numbers = 15" by (simp add: rng)
  have dist: "distinct ?numbers" by (simp add: distinct_map inj_on_def)
  have mem: "set ?numbers \<subseteq> {15 * int c + 1 .. 15 * int c + 15}"
    by (auto simp: rng)
  have "length ?rs \<le> length ?numbers" using len by simp
  from draws_distinct [OF this dist] obtain ns where
    ns: "draws ?rs ?numbers = map Some ns" "distinct ns" "set ns \<subseteq> set ?numbers" by blast
  have "length (draws ?rs ?numbers) = 5" by simp
  with ns(1) have l5: "length ns = 5" by (metis length_map)
  have "\<forall>n \<in> set ns. 15 * int c + 1 \<le> n \<and> n \<le> 15 * int c + 15"
  proof
    fix n assume "n \<in> set ns"
    with ns(3) mem have "n \<in> {15 * int c + 1 .. 15 * int c + 15}" by blast
    then show "15 * int c + 1 \<le> n \<and> n \<le> 15 * int c + 15" by simp
  qed
  with ns(1,2) l5 show ?thesis unfolding column_draws_def by blast
qed

lemma generated_nth:
  "r < 5 \<Longrightarrow> c < 5 \<Longrightarrow>
     generated rnd ! r ! c =
       Some \<lparr>number = column_draws rnd c ! r,
             markedBy = (if r = 2 \<and> c = 2 then Some ''free'' else None)\<rparr>"
  by (simp add: generated_def)

lemma length_generated [simp]: "length (generated rnd) = 5"
  by (simp add: generated_def)

lemma column_numbers_generated:
  "c < 5 \<Longrightarrow> column_numbers (generated rnd) c = column_draws rnd c"
proof -
  assume c: "c < 5"
  obtain ns where ns: "column_draws rnd c = map Some ns" "length ns = 5"
    using column_draws_ok [OF c] by blast
  show ?thesis
    by (rule nth_equalityI) (use c ns in \<open>auto simp: column_numbers_def cell_number_def generated_nth\<close>)
qed

lemma first_column_draws:
  "c < 5 \<Longrightarrow> column_draws first_draws c = map (\<lambda>r. Some (15 * int c + 1 + int r)) [0..<5]"
proof -
  assume "c < 5"
  then have "c = 0 \<or> c = 1 \<or> c = 2 \<or> c = 3 \<or> c = 4" by arith
  then show ?thesis
    by (elim disjE)
       (simp_all add: column_draws_def ranges_def first_draws_def random_index_rand_frac splice1_def
          upt_rec [of 0] upt_rec [of "Suc _"] upt_rec [of "numeral _"])
qed

text \<open>
  C8. On every generated board, column \<open>c\<close> (for \<open>c\<close> in 0..4) holds five pairwise
  distinct integers of the range \<open>[15c+1, 15c+15]\<close>, and the 25 numbers of the board are
  mutually distinct. The board is generated for every sequence of random values.
\<close>

theorem generateBoard_columns:
  "\<exists>b. generateBoard rnd = Inr b \<and>
       (\<forall>c<5. \<exists>ns. column_numbers b c = map Some ns \<and> length ns = 5 \<and> distinct ns \<and>
                    (\<forall>n \<in> set ns. 15 * int c + 1 \<le> n \<and> n \<le> 15 * int c + 15)) \<and>
       distinct (concat (map (column_numbers b) [0..<5]))"
proof -
  let ?b = "generated rnd"
  have cols: "\<exists>ns. column_numbers ?b c = map Some ns \<and> length ns = 5 \<and> distinct ns \<and>
      (\<forall>n \<in> set ns. 15 * int c + 1 \<le> n \<and> n \<le> 15 * int c + 15)" if "c < 5" for c
    using column_draws_ok [OF that, of rnd] that by (simp add: column_numbers_generated)
  obtain n0 where n0: "column_numbers ?b 0 = map Some n0" "distinct n0"
      "\<forall>n \<in> set n0. 1 \<le> n \<and> n \<le> 15"
    using cols [of 0] by auto
  obtain n1 where n1: "column_numbers ?b (Suc 0) = map Some n1" "distinct n1"
      "\<forall>n \<in> set n1. 16 \<le> n \<and> n \<le> 30"
    using cols [of "Suc 0"] by auto
  obtain n2 where n2: "column_numbers ?b 2 = map Some n2" "distinct n2"
      "\<forall>n \<in> set n2. 31 \<le> n \<and> n \<le> 45"
    using cols [of 2] by auto
  obtain n3 where n3: "column_numbers ?b 3 = map Some n3" "distinct n3"
      "\<forall>n \<in> set n3. 46 \<le> n \<and> n \<le> 60"
    using cols [of 3] by auto
  obtain n4 where n4: "column_numbers ?b 4 = map Some n4" "distinct n4"
      "\<forall>n \<in> set n4. 61 \<le> n \<and> n \<le> 75"
    using cols [of 4] by auto
  have upt5: "[0..<5] = [0, 1, 2, 3, 4::nat]"
    by (simp add: upt_rec [of 0] upt_rec [of "Suc _"] upt_rec [of "numeral _"])
  have flat: "concat (map (column_numbers ?b) [0..<5]) = map Some (n0 @ n1 @ n2 @ n3 @ n4)"
    by (simp add: upt5 n0(1) n1(1) n2(1) n3(1) n4(1))
  have "distinct (n0 @ n1 @ n2 @ n3 @ n4)"
    using n0(2,3) n1(2,3) n2(2,3) n3(2,3) n4(2,3) by fastforce
  then have "distinct (map Some (n0 @ n1 @ n2 @ n3 @ n4))"
    by (metis distinct_map inj_Some)
  then have "distinct (concat (map (column_numbers ?b) [0..<5]))"
    by (simp only: flat)
  with cols show ?thesis
    using generateBoard_eq [of rnd] by blast
qed

text \<open>With every random value 0, column 3 is 46, 47, 48, 49, 50.\<close>

theorem generateBoard_columns_witness:
  "generateBoard first_draws = Inr (generated first_draws) \<and>
   column_numbers (generated first_draws) 3 = map Some [46, 47, 48, 49, 50] \<and>
   distinct (concat (map (column_numbers (generated first_draws)) [0..<5]))"
proof -
  from generateBoard_columns [of first_draws]
  have "distinct (concat (map (column_numbers (generated first_draws)) [0..<5]))"
    by (simp add: generateBoard_eq)
  moreover have "column_numbers (generated first_draws) 3 = map Some [46, 47, 48, 49, 50]"
    by (simp add: column_numbers_generated first_column_draws
          upt_rec [of 0] upt_rec [of "Suc _"] upt_rec [of "numeral _"])
  ultimately show ?thesis by (simp add: generateBoard_eq)
qed

text \<open>
  C7, as the code has it. The center cell of every generated board is marked
  \<^verbatim>\<open>"free"\<close> and keeps the number drawn for it: its \<open>number\<close> is the number the
  draw for column 2, row 2 returned (\<open>column_draws rnd 2 ! 2\<close>), an integer of column 2's
  range \<open>[31, 45]\<close>. \<open>generateBoard\<close> assigns only \<^verbatim>\<open>board[2][2].markedBy\<close>.
\<close>

theorem center_keeps_number:
  "\<exists>b n. generateBoard rnd = Inr b \<and>
          b ! 2 ! 2 = Some \<lparr>number = Some n, markedBy = Some ''free''\<rparr> \<and>
          column_draws rnd 2 ! 2 = Some n \<and> 31 \<le> n \<and> n \<le> 45"
proof -
  obtain ns where ns: "column_draws rnd 2 = map Some ns" "length ns = 5"
      "\<forall>n \<in> set ns. 15 * int (2::nat) + 1 \<le> n \<and> n \<le> 15 * int (2::nat) + 15"
    using column_draws_ok [of 2 rnd] by auto
  have drawn: "column_draws rnd 2 ! 2 = Some (ns ! 2)"
    using ns(1,2) by simp
  have "generated rnd ! 2 ! 2 = Some \<lparr>number = Some (ns ! 2), markedBy = Some ''free''\<rparr>"
    using drawn by (simp add: generated_nth)
  moreover have "ns ! 2 \<in> set ns" using ns(2) by simp
  then have "31 \<le> ns ! 2 \<and> ns ! 2 \<le> 45" using ns(3) by fastforce
  ultimately show ?thesis using generateBoard_eq [of rnd] drawn by blast
qed

text \<open>C7 as stated fails: with every random value 0 the center cell holds 33, not
  \<^verbatim>\<open>null\<close>.\<close>

theorem center_number_not_null:
  "generated_cell first_draws 2 2 = Some \<lparr>number = Some 33, markedBy = Some ''free''\<rparr>"
  by (simp add: generated_cell_def generateBoard_eq generated_nth first_column_draws
        upt_rec [of 0] upt_rec [of "Suc _"] upt_rec [of "numeral _"])

section \<open>Concrete runs\<close>

text \<open>The board generated when every random value is 0.\<close>

lemma upt5: "[0..<5] = [0, 1, 2, 3, 4::nat]"
  by (simp add: upt_rec [of 0] upt_rec [of "Suc _"] upt_rec [of "numeral _"])

lemma first_board:
  "generated first_draws =
     [[Some \<lparr>number = Some 1, markedBy = None\<rparr>, Some \<lparr>number = Some 16, markedBy = None\<rparr>,
       Some \<lparr>number = Some 31, markedBy = None\<rparr>, Some \<lparr>number = Some 46, markedBy = None\<rparr>,
       Some \<lparr>number = Some 61, markedBy = None\<rparr>],
      [Some \<lparr>number = Some 2, markedBy = None\<rparr>, Some \<lparr>number = Some 17, markedBy = None\<rparr>,
       Some \<lparr>number = Some 32, markedBy = None\<rparr>, Some \<lparr>number = Some 47, markedBy = None\<rparr>,
       Some \<lparr>number = Some 62, markedBy = None\<rparr>],
      [Some \<lparr>number = Some 3, markedBy = None\<rparr>, Some \<lparr>number = Some 18, markedBy = None\<rparr>,
       Some \<lparr>number = Some 33, markedBy = Some ''free''\<rparr>, Some \<lparr>number = Some 48, markedBy = None\<rparr>,
       Some \<lparr>number = Some 63, markedBy = None\<rparr>],
      [Some \<lparr>number = Some 4, markedBy = None\<rparr>, Some \<lparr>number = Some 19, markedBy = None\<rparr>,
       Some \<lparr>number = Some 34, markedBy = None\<rparr>, Some \<lparr>number = Some 49, markedBy = None\<rparr>,
       Some \<lparr>number = Some 64, markedBy = None\<rparr>],
      [Some \<lparr>number = Some 5, markedBy = None\<rparr>, Some \<lparr>number = Some 20, markedBy = None\<rparr>,
       Some \<lparr>number = Some 35, markedBy = None\<rparr>, Some \<lparr>number = Some 50, markedBy = None\<rparr>,
       Some \<lparr>number = Some 65, markedBy = None\<rparr>]]"
  by (simp add: generated_def first_column_draws upt5)

lemma list_update_numeral [simp]:
  "(x # xs)[numeral k := y] = x # xs[pred_numeral k := y]"
  by (simp add: numeral_eq_Suc)

text \<open>Runs compose, and a run from a reachable registry ends in a reachable one.\<close>

lemma run_append:
  "run gs (as @ bs) = (case run gs as of Inl e \<Rightarrow> Inl e | Inr gs' \<Rightarrow> run gs' bs)"
  by (induction as arbitrary: gs) (auto split: sum.splits)

lemma run_reachable: "run gs acts = Inr gs' \<Longrightarrow> reachable gs \<Longrightarrow> reachable gs'"
proof (induction acts arbitrary: gs)
  case Nil
  then show ?case by simp
next
  case (Cons a acts)
  from Cons.prems(1) obtain resp gs1 where
    s: "step gs a = Inr (resp, gs1)" and r: "run gs1 acts = Inr gs'"
    by (auto split: sum.splits)
  from Cons.prems(2) s have "reachable gs1" by (rule reachable_step)
  with r show ?case by (rule Cons.IH)
qed

text \<open>The registry after Alice's \<^verbatim>\<open>create-room\<close>.\<close>

lemma run_create_alice:
  "run Map.empty [CreateRoom ''alice'' ''Alice'' ''room01'' first_draws] = Inr alice_games"
  by (simp add: create_room_def generateBoard_eq alice_games_def alice_room_def alice_player_def)

lemma reachable_alice_games: "reachable alice_games"
  using run_create_alice reachable_empty by (rule run_reachable)

section \<open>Boards stay 5x5 grids of cell objects\<close>

lemma wf_board_cell:
  assumes "wf_board b" and "r < 5" and "c < 5"
  shows "length b = 5" and "length (b ! r) = 5" and "\<exists>cell. b ! r ! c = Some cell"
proof -
  from assms(1) show l: "length b = 5" by (simp add: wf_board_def)
  with assms(2) have "b ! r \<in> set b" by simp
  with assms(1) have row: "length (b ! r) = 5 \<and> None \<notin> set (b ! r)" by (simp add: wf_board_def)
  then show "length (b ! r) = 5" by simp
  with assms(3) have "b ! r ! c \<in> set (b ! r)" by simp
  with row have "b ! r ! c \<noteq> None" by metis
  then show "\<exists>cell. b ! r ! c = Some cell" by simp
qed

lemma wf_board_generated: "wf_board (generated rnd)"
  by (auto simp: wf_board_def generated_def)

lemma wf_board_set_cell:
  assumes "wf_board b"
  shows "wf_board (set_cell b r c (Some v))"
proof (cases "r < length b")
  case True
  then have "b ! r \<in> set b" by simp
  with assms have row: "length (b ! r) = 5" "None \<notin> set (b ! r)" by (simp_all add: wf_board_def)
  have "set ((b ! r)[c := Some v]) \<subseteq> insert (Some v) (set (b ! r))"
    by (rule set_update_subset_insert)
  with row(2) have new: "None \<notin> set ((b ! r)[c := Some v])" by auto
  have "set (b[r := (b ! r)[c := Some v]]) \<subseteq> insert ((b ! r)[c := Some v]) (set b)"
    by (rule set_update_subset_insert)
  with assms row(1) new show ?thesis
    unfolding wf_board_def set_cell_def by auto
next
  case False
  with assms show ?thesis by (simp add: set_cell_def list_update_beyond)
qed

text \<open>Every board of every registry the server can reach is such a grid: the handlers
  only generate boards and replace single cells.\<close>

lemma mark_cell_result:
  "mark_cell sid roomId row col gs = Inr (resp, gs') \<Longrightarrow>
     gs' = gs \<or>
     (\<exists>game player v. gs roomId = Some game \<and> players game sid = Some player \<and>
        gs' = gs(roomId \<mapsto> game\<lparr>players := (players game)(sid \<mapsto>
                player\<lparr>board := set_cell (board player) (nat row) (nat col) (Some v)\<rparr>)\<rparr>))"
  by (auto simp: mark_cell_def Let_def split: option.splits if_splits)

lemma step_wf_board:
  assumes "step gs a = Inr (resp, gs')"
    and inv: "\<And>rid g s p. gs rid = Some g \<Longrightarrow> players g s = Some p \<Longrightarrow> wf_board (board p)"
    and "gs' roomId = Some game'" and "players game' sid = Some player'"
  shows "wf_board (board player')"
proof (cases a)
  case (CreateRoom s nm rid rnd)
  with assms(1,3,4) inv [of roomId game' sid player'] show ?thesis
    by (cases "rid = roomId"; cases "s = sid")
       (auto simp: create_room_def generateBoard_eq wf_board_generated split: if_splits)
next
  case (JoinRoom s rid nm rnd)
  with assms(1,3,4) inv [of roomId _ sid player'] show ?thesis
    by (cases "rid = roomId"; cases "s = sid")
       (auto simp: join_room_def generateBoard_eq wf_board_generated Let_def
             split: option.splits if_splits)
next
  case (StartGame s rid)
  with assms(1,3,4) inv [of roomId _ sid player'] show ?thesis
    by (cases "rid = roomId") (auto simp: start_game_def split: option.splits if_splits)
next
  case (CallNumber s rid r)
  with assms(1,3,4) inv [of roomId _ sid player'] show ?thesis
    by (cases "rid = roomId") (auto simp: call_number_def Let_def split: option.splits if_splits)
next
  case (MarkCell s rid row col)
  with assms(1) have "mark_cell s rid row col gs = Inr (resp, gs')" by simp
  from mark_cell_result [OF this] show ?thesis
  proof
    assume "gs' = gs"
    with assms(3,4) inv show ?thesis by blast
  next
    assume "\<exists>g p v. gs rid = Some g \<and> players g s = Some p \<and>
        gs' = gs(rid \<mapsto> g\<lparr>players := (players g)(s \<mapsto>
                p\<lparr>board := set_cell (board p) (nat row) (nat col) (Some v)\<rparr>)\<rparr>)"
    then obtain g p v where g: "gs rid = Some g" "players g s = Some p"
      and gs': "gs' = gs(rid \<mapsto> g\<lparr>players := (players g)(s \<mapsto>
                p\<lparr>board := set_cell (board p) (nat row) (nat col) (Some v)\<rparr>)\<rparr>)"
      by blast
    have "wf_board (set_cell (board p) (nat row) (nat col) (Some v))"
      using inv [OF g] by (rule wf_board_set_cell)
    with gs' g assms(3,4) inv [of roomId game' sid player'] inv [of rid g sid player'] show ?thesis
      by (cases "rid = roomId"; cases "s = sid") auto
  qed
next
  case (ClaimBingo s rid)
  with assms(1,3,4) inv [of roomId _ sid player'] show ?thesis
    by (cases "rid = roomId")
       (auto simp: claim_bingo_def split: option.splits sum.splits if_splits)
next
  case (Disconnect s)
  with assms(1,3,4) inv [of roomId _ sid player'] show ?thesis
    by (cases "s = sid") (auto simp: disconnect_def Let_def split: option.splits if_splits)
qed

lemma reachable_wf_board:
  "reachable gs \<Longrightarrow> gs roomId = Some game \<Longrightarrow> players game sid = Some player \<Longrightarrow>
     wf_board (board player)"
proof (induction arbitrary: roomId game sid player rule: reachable.induct)
  case reachable_empty
  then show ?case by simp
next
  case (reachable_step gs a resp gs')
  from reachable_step.hyps(2) reachable_step.IH reachable_step.prems show ?case
    by (rule step_wf_board)
qed

section \<open>mark-cell\<close>

text \<open>\<^verbatim>\<open>mark-cell\<close> inside the board: \<^verbatim>\<open>cell.markedBy = cell.markedBy ? null : socket.id\<close>.\<close>

lemma mark_cell_in_range:
  assumes "gs roomId = Some game" and "players game sid = Some player"
    and "wf_board (board player)"
    and "0 \<le> row" and "row < 5" and "0 \<le> col" and "col < 5"
  shows "\<exists>cell. board player ! nat row ! nat col = Some cell \<and>
           mark_cell sid roomId row col gs =
             Inr (Ok, gs(roomId \<mapsto> game\<lparr>players := (players game)(sid \<mapsto>
                    player\<lparr>board := set_cell (board player) (nat row) (nat col)
                      (Some (cell\<lparr>markedBy :=
                         (if markedBy cell = None \<or> markedBy cell = Some [] then Some sid
                          else None)\<rparr>))\<rparr>)\<rparr>))"
proof -
  have r: "nat row < 5" and c: "nat col < 5" using assms(4-7) by auto
  from wf_board_cell [OF assms(3) r c] obtain cell where
    l: "length (board player) = 5" "length (board player ! nat row) = 5"
    and cell: "board player ! nat row ! nat col = Some cell" by blast
  have "js_nth (board player) row = Some (board player ! nat row)"
    using assms(4,5) l by (simp add: js_nth_def)
  moreover have "row_nth (board player ! nat row) col = Some cell"
    using assms(6,7) l cell by (simp add: row_nth_def js_nth_def)
  ultimately show ?thesis
    using assms(1,2) cell
    by (cases "markedBy cell") (simp_all add: mark_cell_def truthy_def)
qed

text \<open>Outside the board: a row outside throws, whatever the column; a column outside, on
  a row inside, is refused with \<^verbatim>\<open>Invalid cell\<close> and the registry is left as it is.\<close>

lemma mark_cell_row_outside:
  assumes "gs roomId = Some game" and "players game sid = Some player"
    and "wf_board (board player)" and "row < 0 \<or> 5 \<le> row"
  shows "mark_cell sid roomId row col gs = Inl TypeError"
  using assms by (auto simp: mark_cell_def js_nth_def wf_board_def)

lemma mark_cell_col_outside:
  assumes "gs roomId = Some game" and "players game sid = Some player"
    and "wf_board (board player)" and "0 \<le> row" and "row < 5" and "col < 0 \<or> 5 \<le> col"
  shows "mark_cell sid roomId row col gs = Inr (Fail InvalidCell, gs)"
proof -
  have "nat row < 5" using assms(4,5) by simp
  from wf_board_cell(1,2) [OF assms(3) this, of 0]
  have "js_nth (board player) row = Some (board player ! nat row)"
    and "row_nth (board player ! nat row) col = None"
    using assms(4-6) by (auto simp: js_nth_def row_nth_def)
  with assms(1,2) show ?thesis by (simp add: mark_cell_def)
qed

text \<open>
  C6. The claim is that \<^verbatim>\<open>mark-cell\<close> with coordinates outside the board returns an
  \<^verbatim>\<open>Invalid cell\<close> failure. With \<open>row = 5\<close> the handler throws instead:
  \<^verbatim>\<open>player.board[5]\<close> is \<^verbatim>\<open>undefined\<close>, and \<^verbatim>\<open>undefined[col]\<close> is a
  \<^verbatim>\<open>TypeError\<close> raised before the \<^verbatim>\<open>if (!cell)\<close> check is reached.
\<close>

theorem mark_cell_row_5_throws:
  "run Map.empty [CreateRoom ''alice'' ''Alice'' ''room01'' first_draws,
                  MarkCell ''alice'' ''room01'' 5 0] = Inl TypeError"
  by (simp add: create_room_def generateBoard_eq first_board mark_cell_def js_nth_def)

text \<open>The same with \<open>row = -1\<close>.\<close>

lemma mark_cell_row_minus_1_throws:
  "run Map.empty [CreateRoom ''alice'' ''Alice'' ''room01'' first_draws,
                  MarkCell ''alice'' ''room01'' (- 1) 0] = Inl TypeError"
  by (simp add: create_room_def generateBoard_eq first_board mark_cell_def js_nth_def)

text \<open>
  C5, as the code has it. For a member of the room and a cell inside the board,
  \<^verbatim>\<open>mark-cell\<close> sets \<open>markedBy\<close> to the actor's id when the cell is unmarked
  (\<^verbatim>\<open>null\<close>, or the empty string), and to unmarked in every other case: when it is
  marked by this actor, by another actor or \<^verbatim>\<open>"free"\<close>. Nothing else changes: the
  registry afterwards is the one before with that one cell replaced.
\<close>

theorem mark_cell_toggles:
  assumes "gs roomId = Some game" and "players game sid = Some player"
    and "wf_board (board player)"
    and "0 \<le> row" and "row < 5" and "0 \<le> col" and "col < 5"
  shows "\<exists>cell. board player ! nat row ! nat col = Some cell \<and>
           mark_cell sid roomId row col gs =
             Inr (Ok, gs(roomId \<mapsto> game\<lparr>players := (players game)(sid \<mapsto>
                    player\<lparr>board := set_cell (board player) (nat row) (nat col)
                      (Some (cell\<lparr>markedBy :=
                         (if markedBy cell = None \<or> markedBy cell = Some [] then Some sid
                          else None)\<rparr>))\<rparr>)\<rparr>))"
  using assms by (rule mark_cell_in_range)

text \<open>Alice marks the unmarked cell (0, 4), which holds 61.\<close>

theorem mark_cell_toggles_witness:
  "alice_games ''room01'' = Some alice_room \<and> players alice_room ''alice'' = Some alice_player \<and>
   wf_board (board alice_player) \<and>
   mark_cell ''alice'' ''room01'' 0 4 alice_games =
     Inr (Ok, alice_games(''room01'' \<mapsto> alice_room\<lparr>players := [''alice'' \<mapsto>
            alice_player\<lparr>board := set_cell (generated first_draws) 0 4
              (Some \<lparr>number = Some 61, markedBy = Some ''alice''\<rparr>)\<rparr>]\<rparr>))"
proof -
  have h: "alice_games ''room01'' = Some alice_room" "players alice_room ''alice'' = Some alice_player"
    "wf_board (board alice_player)"
    by (simp_all add: alice_games_def alice_room_def alice_player_def wf_board_generated)
  have "board alice_player ! nat 0 ! nat 4 = Some \<lparr>number = Some 61, markedBy = None\<rparr>"
    by (simp add: alice_player_def first_board)
  with mark_cell_toggles [of alice_games "''room01''" alice_room "''alice''" alice_player 0 4] h
  show ?thesis
    by (auto simp: alice_player_def alice_room_def)
qed

text \<open>
  C5 as stated fails: the center cell of Bob's board is \<^verbatim>\<open>"free"\<close>, not marked by
  Bob, and his \<^verbatim>\<open>mark-cell\<close> on it leaves it unmarked instead of marked by Bob.
\<close>

theorem mark_cell_clears_free:
  "cell_after [CreateRoom ''alice'' ''Alice'' ''room01'' first_draws,
               JoinRoom ''bob'' ''room01'' ''Bob'' first_draws] ''room01'' ''bob'' 2 2
     = Some \<lparr>number = Some 33, markedBy = Some ''free''\<rparr> \<and>
   cell_after [CreateRoom ''alice'' ''Alice'' ''room01'' first_draws,
               JoinRoom ''bob'' ''room01'' ''Bob'' first_draws,
               MarkCell ''bob'' ''room01'' 2 2] ''room01'' ''bob'' 2 2
     = Some \<lparr>number = Some 33, markedBy = None\<rparr>"
  by (simp add: cell_after_def board_cell_def create_room_def join_room_def generateBoard_eq
        first_board mark_cell_def js_nth_def row_nth_def set_cell_def truthy_def Let_def)

text \<open>
  C4, as the code has it. The center cell of every generated board is marked
  \<^verbatim>\<open>"free"\<close>, and \<^verbatim>\<open>mark-cell\<close> toggles it like any other cell: on a board as
  generated, the first \<^verbatim>\<open>mark-cell\<close> on (2, 2) succeeds and leaves the center
  unmarked, and the next one marks it with the actor's id.
\<close>

theorem center_cell_toggles:
  assumes "gs roomId = Some game" and "players game sid = Some player"
    and "generateBoard rnd = Inr (board player)"
  shows "\<exists>n gs1 gs2.
           board_cell gs roomId sid 2 2 = Some \<lparr>number = Some n, markedBy = Some ''free''\<rparr> \<and>
           mark_cell sid roomId 2 2 gs = Inr (Ok, gs1) \<and>
           board_cell gs1 roomId sid 2 2 = Some \<lparr>number = Some n, markedBy = None\<rparr> \<and>
           mark_cell sid roomId 2 2 gs1 = Inr (Ok, gs2) \<and>
           board_cell gs2 roomId sid 2 2 = Some \<lparr>number = Some n, markedBy = Some sid\<rparr>"
proof -
  from assms(3) have b: "board player = generated rnd" by (simp add: generateBoard_eq)
  obtain ns where ns: "column_draws rnd 2 = map Some ns" "length ns = 5"
    using column_draws_ok [of 2 rnd] by auto
  let ?n = "ns ! 2"
  have c0: "board player ! 2 ! 2 = Some \<lparr>number = Some ?n, markedBy = Some ''free''\<rparr>"
    using ns by (simp add: b generated_nth)
  have wf0: "wf_board (board player)" by (simp add: b wf_board_generated)
  let ?b1 = "set_cell (board player) 2 2 (Some \<lparr>number = Some ?n, markedBy = None\<rparr>)"
  let ?p1 = "player\<lparr>board := ?b1\<rparr>"
  let ?g1 = "game\<lparr>players := (players game)(sid \<mapsto> ?p1)\<rparr>"
  let ?gs1 = "gs(roomId \<mapsto> ?g1)"
  have m1: "mark_cell sid roomId 2 2 gs = Inr (Ok, ?gs1)"
    using mark_cell_in_range [of gs roomId game sid player 2 2] assms(1,2) wf0 c0 by simp
  have l: "length (board player) = 5" "length (board player ! 2) = 5"
    using wf_board_cell [OF wf0, of 2 2] by simp_all
  have c1: "?b1 ! 2 ! 2 = Some \<lparr>number = Some ?n, markedBy = None\<rparr>"
    using l by (simp add: set_cell_nth)
  have wf1: "wf_board (board ?p1)" using wf0 by (simp add: wf_board_set_cell)
  let ?b2 = "set_cell ?b1 2 2 (Some \<lparr>number = Some ?n, markedBy = Some sid\<rparr>)"
  let ?p2 = "?p1\<lparr>board := ?b2\<rparr>"
  let ?g2 = "?g1\<lparr>players := (players ?g1)(sid \<mapsto> ?p2)\<rparr>"
  let ?gs2 = "?gs1(roomId \<mapsto> ?g2)"
  have "?gs1 roomId = Some ?g1" "players ?g1 sid = Some ?p1" by simp_all
  with mark_cell_in_range [of ?gs1 roomId ?g1 sid ?p1 2 2] wf1 c1
  have m2: "mark_cell sid roomId 2 2 ?gs1 = Inr (Ok, ?gs2)" by simp
  have c2: "?b2 ! 2 ! 2 = Some \<lparr>number = Some ?n, markedBy = Some sid\<rparr>"
    using l by (simp add: set_cell_nth)
  have "board_cell gs roomId sid 2 2 = Some \<lparr>number = Some ?n, markedBy = Some ''free''\<rparr>"
    using assms(1,2) c0 by (simp add: board_cell_def)
  moreover have "board_cell ?gs1 roomId sid 2 2 = Some \<lparr>number = Some ?n, markedBy = None\<rparr>"
    using c1 by (simp add: board_cell_def)
  moreover have "board_cell ?gs2 roomId sid 2 2 = Some \<lparr>number = Some ?n, markedBy = Some sid\<rparr>"
    using c2 by (simp add: board_cell_def)
  ultimately show ?thesis using m1 m2 by blast
qed

text \<open>Alice in her fresh room.\<close>

theorem center_cell_toggles_witness:
  "alice_games ''room01'' = Some alice_room \<and> players alice_room ''alice'' = Some alice_player \<and>
   generateBoard first_draws = Inr (board alice_player) \<and>
   board_cell alice_games ''room01'' ''alice'' 2 2 = Some \<lparr>number = Some 33, markedBy = Some ''free''\<rparr> \<and>
   (\<exists>gs1 gs2. mark_cell ''alice'' ''room01'' 2 2 alice_games = Inr (Ok, gs1) \<and>
      board_cell gs1 ''room01'' ''alice'' 2 2 = Some \<lparr>number = Some 33, markedBy = None\<rparr> \<and>
      mark_cell ''alice'' ''room01'' 2 2 gs1 = Inr (Ok, gs2) \<and>
      board_cell gs2 ''room01'' ''alice'' 2 2 = Some \<lparr>number = Some 33, markedBy = Some ''alice''\<rparr>)"
proof -
  have h: "alice_games ''room01'' = Some alice_room" "players alice_room ''alice'' = Some alice_player"
    "generateBoard first_draws = Inr (board alice_player)"
    by (simp_all add: alice_games_def alice_room_def alice_player_def generateBoard_eq)
  have c: "board_cell alice_games ''room01'' ''alice'' 2 2 = Some \<lparr>number = Some 33, markedBy = Some ''free''\<rparr>"
    by (simp add: board_cell_def alice_games_def alice_room_def alice_player_def first_board)
  from center_cell_toggles [of alice_games "''room01''" alice_room "''alice''" alice_player first_draws]
    c h show ?thesis by auto
qed

text \<open>
  C4 as stated fails: the first \<^verbatim>\<open>mark-cell\<close> on the center cell of a fresh board
  clears \<^verbatim>\<open>"free"\<close>, the second one marks the cell for the player.
\<close>

theorem center_not_immutable:
  "cell_after [CreateRoom ''alice'' ''Alice'' ''room01'' first_draws] ''room01'' ''alice'' 2 2
     = Some \<lparr>number = Some 33, markedBy = Some ''free''\<rparr> \<and>
   cell_after [CreateRoom ''alice'' ''Alice'' ''room01'' first_draws,
               MarkCell ''alice'' ''room01'' 2 2] ''room01'' ''alice'' 2 2
     = Some \<lparr>number = Some 33, markedBy = None\<rparr> \<and>
   cell_after [CreateRoom ''alice'' ''Alice'' ''room01'' first_draws,
               MarkCell ''alice'' ''room01'' 2 2,
               MarkCell ''alice'' ''room01'' 2 2] ''room01'' ''alice'' 2 2
     = Some \<lparr>number = Some 33, markedBy = Some ''alice''\<rparr>"
  by (simp add: cell_after_def board_cell_def create_room_def generateBoard_eq first_board
        mark_cell_def js_nth_def row_nth_def set_cell_def truthy_def)

section \<open>The phase flag\<close>

text \<open>\<^verbatim>\<open>call-number\<close>, \<^verbatim>\<open>mark-cell\<close> and \<^verbatim>\<open>claim-bingo\<close> never read
  \<^verbatim>\<open>game.started\<close>: they commute with setting it.\<close>

lemma set_started_same:
  "gs roomId = Some game \<Longrightarrow> started game = s \<Longrightarrow> set_started s roomId gs = gs"
  by (auto simp: set_started_def)

lemma call_number_started:
  "call_number sid roomId r (set_started s roomId gs) =
     map_registry (set_started s roomId) (call_number sid roomId r gs)"
proof (cases "gs roomId")
  case None
  then show ?thesis by (simp add: call_number_def set_started_def map_registry_def)
next
  case (Some game)
  then show ?thesis
    by (cases game) (simp add: call_number_def set_started_def map_registry_def Let_def)
qed

lemma mark_cell_started:
  "mark_cell sid roomId row col (set_started s roomId gs) =
     map_registry (set_started s roomId) (mark_cell sid roomId row col gs)"
proof (cases "gs roomId")
  case None
  then show ?thesis by (simp add: mark_cell_def set_started_def map_registry_def)
next
  case (Some game)
  then show ?thesis
    by (cases game)
       (simp add: mark_cell_def set_started_def map_registry_def Let_def split: option.splits)
qed

lemma claim_bingo_started:
  "claim_bingo sid roomId (set_started s roomId gs) =
     map_registry (set_started s roomId) (claim_bingo sid roomId gs)"
proof (cases "gs roomId")
  case None
  then show ?thesis by (simp add: claim_bingo_def set_started_def map_registry_def)
next
  case (Some game)
  then show ?thesis
    by (cases game; cases "players game sid"; cases "hasBingo sid (board (the (players game sid)))")
       (auto simp: claim_bingo_def set_started_def map_registry_def)
qed

lemma set_started_twice: "set_started s roomId (set_started t roomId gs) = set_started s roomId gs"
  by (cases "gs roomId") (simp_all add: set_started_def)

lemma map_registry_comp:
  "map_registry f (map_registry g res) = map_registry (\<lambda>gs. f (g gs)) res"
  by (cases res) (auto simp: map_registry_def)

lemma availableNumbers_Nil: "availableNumbers [] = map (\<lambda>i. int i + 1) [0..<75]"
  by (simp add: availableNumbers_def)

section \<open>claim-bingo\<close>

text \<open>On a 5x5 grid of cell objects nothing throws, and the four disjuncts of
  \<^verbatim>\<open>hasBingo\<close> are the rows, the columns and the two diagonals.\<close>

lemma checkLine_complete:
  "None \<notin> set cells \<Longrightarrow> checkLine sid cells = Inr (complete_for sid cells)"
  by (induction sid cells rule: checkLine.induct) (auto simp: complete_for_def)

lemma some_js_Inr:
  "(\<And>x. x \<in> set xs \<Longrightarrow> f x = Inr (P x)) \<Longrightarrow> some_js f xs = Inr (\<exists>x \<in> set xs. P x)"
  by (induction xs) auto

lemma or_js_Inr: "or_js (Inr s) (Inr t) = Inr (s \<or> t)"
  by (simp add: or_js_def)

lemma wf_board_row:
  assumes "wf_board b" and "0 \<le> i" and "i < 5"
  shows "js_nth b i = Some (b ! nat i)"
  using assms by (simp add: js_nth_def wf_board_def)

lemma wf_board_row_nth:
  assumes "wf_board b" and "r < 5" and "0 \<le> j" and "j < 5"
  shows "row_nth (b ! r) j = b ! r ! nat j"
proof -
  have "length (b ! r) = 5" using wf_board_cell(2) [OF assms(1,2), of 0] by simp
  with assms(3,4) show ?thesis by (simp add: row_nth_def js_nth_def)
qed

lemma map_cells_wf:
  assumes "wf_board b"
  shows "(\<forall>i \<in> set is. 0 \<le> i \<and> i < 5 \<and> 0 \<le> f i \<and> f i < 5) \<Longrightarrow>
           map_cells b f is = Inr (map (\<lambda>i. b ! nat i ! nat (f i)) is)"
proof (induction "is")
  case Nil
  then show ?case by simp
next
  case (Cons i "is")
  then have i: "0 \<le> i" "i < 5" "0 \<le> f i" "f i < 5" by auto
  then have "nat i < 5" by simp
  from wf_board_row_nth [OF assms this i(3,4)] wf_board_row [OF assms i(1,2)] Cons
  show ?case by simp
qed

lemma wf_board_rows: "wf_board b \<Longrightarrow> b = map (\<lambda>r. map (\<lambda>c. b ! r ! c) [0..<5]) [0..<5]"
proof -
  assume wf: "wf_board b"
  then have l: "length b = 5" by (simp add: wf_board_def)
  have "b ! r = map (\<lambda>c. b ! r ! c) [0..<5]" if "r < 5" for r
    using wf_board_cell(2) [OF wf that, of 0] map_nth [of "b ! r"] by simp
  then have "map (\<lambda>r. b ! r) [0..<5] = map (\<lambda>r. map (\<lambda>c. b ! r ! c) [0..<5]) [0..<5]"
    by simp
  with map_nth [of b] l show ?thesis by simp
qed

lemma wf_board_line:
  assumes "wf_board b" and "\<forall>p \<in> set ps. fst p < 5 \<and> snd p < 5"
  shows "None \<notin> set (map (\<lambda>p. b ! fst p ! snd p) ps)"
proof
  assume "None \<in> set (map (\<lambda>p. b ! fst p ! snd p) ps)"
  then obtain p where "p \<in> set ps" "b ! fst p ! snd p = None" by auto
  with assms(2) wf_board_cell(3) [OF assms(1), of "fst p" "snd p"] show False by auto
qed

lemma hasBingo_win:
  assumes wf: "wf_board b"
  shows "hasBingo sid b = Inr (win sid b)"
proof -
  have upt: "[0..<5] = [0, 1, 2, 3, 4::nat]"
    by (simp add: upt_rec [of 0] upt_rec [of "Suc _"] upt_rec [of "numeral _"])
  have rows_eq: "set b = (\<lambda>r. map (\<lambda>c. b ! r ! c) [0..<5]) ` set [0..<5]"
    using arg_cong [OF wf_board_rows [OF wf], of set] by (simp only: set_map)
  have row_ok: "checkLine sid row = Inr (complete_for sid row)" if "row \<in> set b" for row
    using that wf by (intro checkLine_complete) (auto simp: wf_board_def)
  have rows: "some_js (checkLine sid) b
      = Inr (\<exists>r \<in> set [0..<5]. complete_for sid (map (\<lambda>c. b ! r ! c) [0..<5]))"
    using some_js_Inr [of b "checkLine sid" "complete_for sid", OF row_ok] rows_eq by simp
  have col_eq: "map (\<lambda>r. row_nth r c) b = map (\<lambda>r. b ! r ! nat c) [0..<5]"
    if "0 \<le> c" "c < 5" for c
  proof -
    have l: "length b = 5" using wf by (simp add: wf_board_def)
    have "map (\<lambda>r. row_nth r c) b = map (\<lambda>r. row_nth r c) (map ((!) b) [0..<length b])"
      by (simp only: map_nth)
    also have "\<dots> = map (\<lambda>r. row_nth (b ! r) c) [0..<5]"
      by (simp only: map_map comp_def l)
    also have "\<dots> = map (\<lambda>r. b ! r ! nat c) [0..<5]"
      using wf_board_row_nth [OF wf _ that] by simp
    finally show ?thesis .
  qed
  have col_ok: "checkLine sid (map (\<lambda>r. row_nth r c) b)
      = Inr (complete_for sid (map (\<lambda>r. b ! r ! nat c) [0..<5]))"
    if "c \<in> set [0, 1, 2, 3, 4::int]" for c
  proof -
    from that have c: "0 \<le> c" "c < 5" by auto
    have "None \<notin> set (map (\<lambda>p. b ! fst p ! snd p) (map (\<lambda>r. (r, nat c)) [0..<5]))"
      by (rule wf_board_line [OF wf]) (use c in auto)
    then have "None \<notin> set (map (\<lambda>r. b ! r ! nat c) [0..<5])" by (simp add: comp_def)
    from checkLine_complete [OF this] show ?thesis by (simp only: col_eq [OF c])
  qed
  have cols: "some_js (\<lambda>c. checkLine sid (map (\<lambda>r. row_nth r c) b)) [0, 1, 2, 3, 4]
      = Inr (\<exists>c \<in> set [0..<5]. complete_for sid (map (\<lambda>r. b ! r ! c) [0..<5]))"
    using some_js_Inr [of "[0, 1, 2, 3, 4::int]" "\<lambda>c. checkLine sid (map (\<lambda>r. row_nth r c) b)"
        "\<lambda>c. complete_for sid (map (\<lambda>r. b ! r ! nat c) [0..<5])", OF col_ok]
    by (simp add: upt)
  have "map_cells b (\<lambda>i. i) [0, 1, 2, 3, 4] = Inr (map (\<lambda>i. b ! nat i ! nat i) [0, 1, 2, 3, 4])"
    by (rule map_cells_wf [OF wf]) simp
  then have d: "map_cells b (\<lambda>i. i) [0, 1, 2, 3, 4] = Inr (map (\<lambda>i. b ! i ! i) [0..<5])"
    by (simp add: upt)
  have "None \<notin> set (map (\<lambda>p. b ! fst p ! snd p) (map (\<lambda>i. (i, i)) [0..<5]))"
    by (rule wf_board_line [OF wf]) auto
  then have dn: "None \<notin> set (map (\<lambda>i. b ! i ! i) [0..<5])" by (simp add: comp_def)
  have diag: "(case map_cells b (\<lambda>i. i) [0, 1, 2, 3, 4] of Inl e \<Rightarrow> Inl e | Inr cs \<Rightarrow> checkLine sid cs)
      = Inr (complete_for sid (map (\<lambda>i. b ! i ! i) [0..<5]))"
    by (simp only: d sum.case checkLine_complete [OF dn])
  have "map_cells b (\<lambda>i. 4 - i) [0, 1, 2, 3, 4] = Inr (map (\<lambda>i. b ! nat i ! nat (4 - i)) [0, 1, 2, 3, 4])"
    by (rule map_cells_wf [OF wf]) simp
  then have a: "map_cells b (\<lambda>i. 4 - i) [0, 1, 2, 3, 4] = Inr (map (\<lambda>i. b ! i ! (4 - i)) [0..<5])"
    by (simp add: upt)
  have "None \<notin> set (map (\<lambda>p. b ! fst p ! snd p) (map (\<lambda>i. (i, 4 - i)) [0..<5]))"
    by (rule wf_board_line [OF wf]) auto
  then have an: "None \<notin> set (map (\<lambda>i. b ! i ! (4 - i)) [0..<5])" by (simp add: comp_def)
  have anti: "(case map_cells b (\<lambda>i. 4 - i) [0, 1, 2, 3, 4] of Inl e \<Rightarrow> Inl e | Inr cs \<Rightarrow> checkLine sid cs)
      = Inr (complete_for sid (map (\<lambda>i. b ! i ! (4 - i)) [0..<5]))"
    by (simp only: a sum.case checkLine_complete [OF an])
  show ?thesis
    unfolding hasBingo_def win_def
    by (simp only: rows cols diag anti or_js_Inr)
qed

lemma run_both_complete: "run Map.empty both_complete = Inr row2_games"
  by (simp add: both_complete_def row2_games_def row2_room_def alice_room_def alice_player_def
        row2_player_def row2_board_def
        create_room_def join_room_def generateBoard_eq first_board mark_cell_def js_nth_def
        row_nth_def set_cell_def truthy_def Let_def fun_upd_twist)

text \<open>
  C1. For every 5x5 board of cell objects (every board of a reachable registry is one,
  \<open>reachable_wf_board\<close>) and every actor, the win check of
  \<^verbatim>\<open>claim-bingo\<close> is true exactly when a row, a column, the main diagonal or the
  anti-diagonal is complete for the actor (every cell marked by the actor or
  \<^verbatim>\<open>"free"\<close>). The handler answers accordingly and does not touch the board: the
  registry afterwards is the one before, with \<open>winnerId\<close> set when the check succeeded.
\<close>

theorem claim_bingo_checks_win:
  assumes "gs roomId = Some game" and "players game sid = Some player"
    and "wf_board (board player)"
  shows "hasBingo sid (board player) = Inr (win sid (board player)) \<and>
         claim_bingo sid roomId gs =
           (if win sid (board player) then Inr (Ok, gs(roomId \<mapsto> game\<lparr>winnerId := Some sid\<rparr>))
            else Inr (Fail NotAValidBingo, gs))"
  using assms by (simp add: claim_bingo_def hasBingo_win)

lemma wf_row2_board: "wf_board (row2_board sid)"
  by (simp add: row2_board_def first_board wf_board_def)

lemma win_row2_board: "win sid (row2_board sid)"
  by (simp add: win_def complete_for_def row2_board_def first_board upt5)

text \<open>Bob with row 2 complete wins; Alice on her fresh board does not.\<close>

theorem claim_bingo_checks_win_witness:
  "row2_games ''room01'' = Some row2_room \<and>
   players row2_room ''bob'' = Some (row2_player ''bob'' ''Bob'') \<and>
   wf_board (board (row2_player ''bob'' ''Bob'')) \<and>
   win ''bob'' (board (row2_player ''bob'' ''Bob'')) \<and>
   claim_bingo ''bob'' ''room01'' row2_games =
     Inr (Ok, row2_games(''room01'' \<mapsto> row2_room\<lparr>winnerId := Some ''bob''\<rparr>)) \<and>
   \<not> win ''alice'' (board alice_player) \<and>
   claim_bingo ''alice'' ''room01'' alice_games = Inr (Fail NotAValidBingo, alice_games)"
proof -
  have h: "row2_games ''room01'' = Some row2_room"
    "players row2_room ''bob'' = Some (row2_player ''bob'' ''Bob'')"
    "wf_board (board (row2_player ''bob'' ''Bob''))"
    by (simp_all add: row2_games_def row2_room_def row2_player_def wf_row2_board)
  have w: "win ''bob'' (board (row2_player ''bob'' ''Bob''))"
    by (simp add: row2_player_def win_row2_board)
  have h': "alice_games ''room01'' = Some alice_room"
    "players alice_room ''alice'' = Some alice_player" "wf_board (board alice_player)"
    by (simp_all add: alice_games_def alice_room_def alice_player_def wf_board_generated)
  have w': "\<not> win ''alice'' (board alice_player)"
    by (simp add: win_def complete_for_def alice_player_def first_board upt5)
  from claim_bingo_checks_win [of row2_games "''room01''" row2_room "''bob''" "row2_player ''bob'' ''Bob''"]
    claim_bingo_checks_win [of alice_games "''room01''" alice_room "''alice''" alice_player]
    h w h' w'
  show ?thesis by simp
qed

section \<open>create-room\<close>

text \<open>
  C9, as the code has it. \<^verbatim>\<open>create-room\<close> stores the new room under the code it drew
  with \<^verbatim>\<open>games.set(roomId, game)\<close>, whatever the registry holds: the code is not
  compared with the codes of the registered rooms. The rooms registered under other codes
  are untouched; a room registered under the same code is replaced by the new one.
\<close>

theorem create_room_registers:
  "\<exists>b gs'. generateBoard rnd = Inr b \<and>
       create_room sid nm roomId rnd gs = Inr (OkRoom roomId, gs') \<and>
       gs' roomId = Some \<lparr>game_id = roomId, hostId = sid,
                           players = [sid \<mapsto> \<lparr>player_id = sid, name = nm, board = b\<rparr>],
                           calledNumbers = [], started = False, winnerId = None\<rparr> \<and>
       (\<forall>rid. rid \<noteq> roomId \<longrightarrow> gs' rid = gs rid)"
  by (simp add: create_room_def generateBoard_eq)

text \<open>Bob creates \<open>room02\<close> while Alice's \<open>room01\<close> is registered: her room is as it
  was.\<close>

theorem create_room_registers_witness:
  "\<exists>gs'. create_room ''bob'' ''Bob'' ''room02'' first_draws alice_games = Inr (OkRoom ''room02'', gs') \<and>
         map_option hostId (gs' ''room02'') = Some ''bob'' \<and>
         gs' ''room01'' = Some alice_room"
proof -
  from create_room_registers [of first_draws "''bob''" "''Bob''" "''room02''" alice_games]
  obtain b gs' where
    c: "create_room ''bob'' ''Bob'' ''room02'' first_draws alice_games = Inr (OkRoom ''room02'', gs')"
    and n: "gs' ''room02'' = Some \<lparr>game_id = ''room02'', hostId = ''bob'',
                           players = [''bob'' \<mapsto> \<lparr>player_id = ''bob'', name = ''Bob'', board = b\<rparr>],
                           calledNumbers = [], started = False, winnerId = None\<rparr>"
    and o: "\<forall>rid. rid \<noteq> ''room02'' \<longrightarrow> gs' rid = alice_games rid"
    by blast
  from o have "gs' ''room01'' = Some alice_room" by (simp add: alice_games_def)
  with c n show ?thesis by simp
qed

text \<open>
  C9 as stated fails: when the second \<^verbatim>\<open>create-room\<close> draws the code of Alice's
  room, the room registered under that code is Bob's new room and Alice is not in it.
\<close>

theorem create_room_overwrites:
  "map_option hostId (room_after [CreateRoom ''alice'' ''Alice'' ''room01'' first_draws] ''room01'')
     = Some ''alice'' \<and>
   map_option hostId (room_after [CreateRoom ''alice'' ''Alice'' ''room01'' first_draws,
                                  CreateRoom ''bob'' ''Bob'' ''room01'' first_draws] ''room01'')
     = Some ''bob'' \<and>
   cell_after [CreateRoom ''alice'' ''Alice'' ''room01'' first_draws,
               CreateRoom ''bob'' ''Bob'' ''room01'' first_draws] ''room01'' ''alice'' 2 2 = None"
  by (simp add: room_after_def cell_after_def board_cell_def create_room_def generateBoard_eq)

section \<open>The winner\<close>

text \<open>A claim sets \<open>winnerId\<close> exactly when its win check succeeds.\<close>

lemma verified_win_claim:
  "claim_bingo sid roomId gs = Inr (resp, gs') \<Longrightarrow> gs roomId = Some game \<Longrightarrow>
     (verified_win gs roomId sid \<longrightarrow> gs' = gs(roomId \<mapsto> game\<lparr>winnerId := Some sid\<rparr>)) \<and>
     (\<not> verified_win gs roomId sid \<longrightarrow> gs' = gs)"
  by (auto simp: claim_bingo_def verified_win_def split: option.splits sum.splits if_splits)

text \<open>
  C3, as the code has it. While a room stays registered (no \<^verbatim>\<open>create-room\<close> draws its
  code again), an event changes its \<open>winnerId\<close> only if it is a claim on that room whose
  win check succeeds, and then \<open>winnerId\<close> is the claimant. Every such claim assigns it:
  there is no guard on a \<open>winnerId\<close> that is already set, so it can be assigned more
  than once.
\<close>

theorem winnerId_set_by_verified_claims:
  assumes "step gs a = Inr (resp, gs')" and "gs roomId = Some game" and "gs' roomId = Some game'"
    and "\<forall>sid nm rnd. a \<noteq> CreateRoom sid nm roomId rnd"
  shows "(winnerId game' \<noteq> winnerId game \<longrightarrow>
            (\<exists>sid. a = ClaimBingo sid roomId \<and> verified_win gs roomId sid \<and> winnerId game' = Some sid))
       \<and> (\<forall>sid. a = ClaimBingo sid roomId \<and> verified_win gs roomId sid \<longrightarrow> winnerId game' = Some sid)"
proof (cases a)
  case (CreateRoom sid nm rid rnd)
  with assms(4) have "rid \<noteq> roomId" by auto
  with assms(1-3) CreateRoom show ?thesis
    by (auto simp: create_room_def generateBoard_eq)
next
  case (JoinRoom sid rid nm rnd)
  with assms(1-3) show ?thesis
    by (cases "rid = roomId")
       (auto simp: join_room_def generateBoard_eq Let_def split: option.splits if_splits)
next
  case (StartGame sid rid)
  with assms(1-3) show ?thesis
    by (cases "rid = roomId") (auto simp: start_game_def split: option.splits if_splits)
next
  case (CallNumber sid rid r)
  with assms(1-3) show ?thesis
    by (cases "rid = roomId") (auto simp: call_number_def Let_def split: option.splits if_splits)
next
  case (MarkCell sid rid row col)
  with assms(1-3) show ?thesis
    by (cases "rid = roomId") (auto simp: mark_cell_def Let_def split: option.splits if_splits)
next
  case (ClaimBingo sid rid)
  show ?thesis
  proof (cases "rid = roomId")
    case True
    with ClaimBingo assms(1) have "claim_bingo sid roomId gs = Inr (resp, gs')" by simp
    from verified_win_claim [OF this assms(2)] assms(2,3) ClaimBingo True show ?thesis
      by (cases "verified_win gs roomId sid") auto
  next
    case False
    with ClaimBingo assms(1-3) show ?thesis
      by (auto simp: claim_bingo_def split: option.splits sum.splits if_splits)
  qed
next
  case (Disconnect sid)
  with assms(1-3) show ?thesis
    by (auto simp: disconnect_def Let_def split: option.splits if_splits)
qed

lemma claim_row2:
  "claim_bingo sid ''room01'' [''room01'' \<mapsto> row2_room\<lparr>winnerId := w\<rparr>] =
     (if sid = ''alice'' \<or> sid = ''bob''
      then Inr (Ok, [''room01'' \<mapsto> row2_room\<lparr>winnerId := Some sid\<rparr>])
      else Inr (Fail NotInGame, [''room01'' \<mapsto> row2_room\<lparr>winnerId := w\<rparr>]))"
  by (auto simp: claim_bingo_def row2_room_def row2_player_def hasBingo_win wf_row2_board
        win_row2_board)

text \<open>Bob's claim after Alice has won.\<close>

theorem winnerId_set_by_verified_claims_witness:
  "step alice_won_games (ClaimBingo ''bob'' ''room01'')
     = Inr (Ok, [''room01'' \<mapsto> row2_room\<lparr>winnerId := Some ''bob''\<rparr>]) \<and>
   alice_won_games ''room01'' = Some (row2_room\<lparr>winnerId := Some ''alice''\<rparr>) \<and>
   verified_win alice_won_games ''room01'' ''bob'' \<and>
   winnerId (row2_room\<lparr>winnerId := Some ''bob''\<rparr>) = Some ''bob''"
proof -
  have s: "step alice_won_games (ClaimBingo ''bob'' ''room01'')
     = Inr (Ok, [''room01'' \<mapsto> row2_room\<lparr>winnerId := Some ''bob''\<rparr>])"
    by (simp add: alice_won_games_def claim_row2)
  have g: "alice_won_games ''room01'' = Some (row2_room\<lparr>winnerId := Some ''alice''\<rparr>)"
    by (simp add: alice_won_games_def)
  have g': "[''room01'' \<mapsto> row2_room\<lparr>winnerId := Some ''bob''\<rparr>] ''room01''
      = Some (row2_room\<lparr>winnerId := Some ''bob''\<rparr>)"
    by simp
  have v: "verified_win alice_won_games ''room01'' ''bob''"
    by (simp add: verified_win_def alice_won_games_def row2_room_def row2_player_def
          hasBingo_win wf_row2_board win_row2_board)
  have n: "\<forall>sid nm rnd. ClaimBingo ''bob'' ''room01'' \<noteq> CreateRoom sid nm ''room01'' rnd"
    by simp
  from winnerId_set_by_verified_claims [OF s g g' n] v
  have "winnerId (row2_room\<lparr>winnerId := Some ''bob''\<rparr>) = Some ''bob''" by blast
  with s g v show ?thesis by blast
qed

text \<open>
  C3 as stated fails: Alice and Bob both complete row 2; Alice's claim sets
  \<open>winnerId\<close> to her id, and Bob's later claim replaces it by his.
\<close>

theorem winner_overwritten:
  "map_option winnerId (room_after (both_complete @ [ClaimBingo ''alice'' ''room01'']) ''room01'')
     = Some (Some ''alice'') \<and>
   map_option winnerId (room_after (both_complete @ [ClaimBingo ''alice'' ''room01'',
                                                     ClaimBingo ''bob'' ''room01'']) ''room01'')
     = Some (Some ''bob'')"
proof -
  have "claim_bingo sid ''room01'' row2_games =
     (if sid = ''alice'' \<or> sid = ''bob''
      then Inr (Ok, [''room01'' \<mapsto> row2_room\<lparr>winnerId := Some sid\<rparr>])
      else Inr (Fail NotInGame, row2_games))" for sid
    using claim_row2 [of sid None] by (simp add: row2_games_def row2_room_def alice_room_def)
  then show ?thesis
    by (simp add: room_after_def run_append run_both_complete claim_row2)
qed

section \<open>call-number\<close>

text \<open>The numbers still available are those of 1..75 not yet called.\<close>

lemma numbers_1_75: "set (map (\<lambda>i. int i + 1) [0..<75]) = {1..75}"
proof -
  have "(\<lambda>i. int i + 1) ` {0..<75} = {1..75}"
  proof (intro equalityI subsetI)
    fix x assume "x \<in> (\<lambda>i. int i + 1) ` {0..<75}"
    then show "x \<in> {1..75}" by auto
  next
    fix x :: int assume "x \<in> {1..75}"
    then have "x = int (nat (x - 1)) + 1" "nat (x - 1) \<in> {0..<75}" by auto
    then show "x \<in> (\<lambda>i. int i + 1) ` {0..<75}" by (rule image_eqI)
  qed
  then show ?thesis by simp
qed

lemma set_availableNumbers: "set (availableNumbers called) = {1..75} - set called"
  unfolding availableNumbers_def set_filter numbers_1_75 by auto

lemma call_number_Ok:
  assumes "call_number sid roomId r gs = Inr (OkNumber n, gs')" and "gs roomId = Some game"
  shows "sid = hostId game \<and> n \<in> {1..75} - set (calledNumbers game) \<and>
         gs' = gs(roomId \<mapsto> game\<lparr>calledNumbers := calledNumbers game @ [n]\<rparr>)"
proof -
  let ?av = "availableNumbers (calledNumbers game)"
  from assms have host: "sid = hostId game" and ne: "length ?av \<noteq> 0"
    by (auto simp: call_number_def Let_def split: if_splits)
  with assms have n: "n = ?av ! random_index r (length ?av)"
    and gs': "gs' = gs(roomId \<mapsto> game\<lparr>calledNumbers := calledNumbers game @ [n]\<rparr>)"
    by (auto simp: call_number_def Let_def split: if_splits)
  from ne have "random_index r (length ?av) < length ?av" by (intro random_index_less) simp
  then have "n \<in> set ?av" unfolding n by (rule nth_mem)
  with host gs' show ?thesis by (simp add: set_availableNumbers)
qed

lemma call_number_exhausted:
  assumes "gs roomId = Some game" and "set (calledNumbers game) \<subseteq> {1..75}"
    and "card (set (calledNumbers game)) = 75"
  shows "call_number (hostId game) roomId r gs = Inr (Fail AllNumbersCalled, gs)"
proof -
  have "card {1..75::int} = 75" by simp
  with assms(2,3) have "set (calledNumbers game) = {1..75}"
    by (intro card_subset_eq) simp_all
  then have "set (availableNumbers (calledNumbers game)) = {}"
    by (simp add: set_availableNumbers)
  then have "availableNumbers (calledNumbers game) = []" by simp
  with assms(1) show ?thesis by (simp add: call_number_def)
qed

text \<open>An event leaves \<open>calledNumbers\<close> as it is, empties it, or appends a number of
  1..75 that is not in it; so in every registry the server can reach, the called numbers
  of a room are distinct numbers of 1..75.\<close>

lemma step_called:
  assumes "step gs a = Inr (resp, gs')" and "gs' roomId = Some game'"
  shows "calledNumbers game' = [] \<or>
         (\<exists>game. gs roomId = Some game \<and>
            (calledNumbers game' = calledNumbers game \<or>
             (\<exists>n. n \<in> {1..75} - set (calledNumbers game) \<and>
                  calledNumbers game' = calledNumbers game @ [n])))"
proof (cases a)
  case (CreateRoom sid nm rid rnd)
  with assms show ?thesis
    by (cases "rid = roomId") (auto simp: create_room_def generateBoard_eq)
next
  case (JoinRoom sid rid nm rnd)
  with assms show ?thesis
    by (cases "rid = roomId")
       (auto simp: join_room_def generateBoard_eq Let_def split: option.splits if_splits)
next
  case (StartGame sid rid)
  with assms show ?thesis
    by (cases "rid = roomId") (auto simp: start_game_def split: option.splits if_splits)
next
  case (CallNumber sid rid r)
  show ?thesis
  proof (cases "gs rid")
    case None
    with CallNumber assms show ?thesis by (simp add: call_number_def)
  next
    case (Some old)
    show ?thesis
    proof (cases "\<exists>n. resp = OkNumber n")
      case True
      then obtain n where "resp = OkNumber n" by blast
      with CallNumber assms(1) have "call_number sid rid r gs = Inr (OkNumber n, gs')" by simp
      from call_number_Ok [OF this Some] Some assms(2) show ?thesis
        by (cases "rid = roomId") auto
    next
      case False
      with CallNumber assms Some show ?thesis
        by (auto simp: call_number_def Let_def split: if_splits)
    qed
  qed
next
  case (MarkCell sid rid row col)
  with assms show ?thesis
    by (cases "rid = roomId") (auto simp: mark_cell_def Let_def split: option.splits if_splits)
next
  case (ClaimBingo sid rid)
  with assms show ?thesis
    by (cases "rid = roomId")
       (auto simp: claim_bingo_def split: option.splits sum.splits if_splits)
next
  case (Disconnect sid)
  with assms show ?thesis
    by (auto simp: disconnect_def Let_def split: option.splits if_splits)
qed

lemma reachable_called:
  "reachable gs \<Longrightarrow> gs roomId = Some game \<Longrightarrow>
     distinct (calledNumbers game) \<and> set (calledNumbers game) \<subseteq> {1..75}"
proof (induction arbitrary: roomId game rule: reachable.induct)
  case reachable_empty
  then show ?case by simp
next
  case (reachable_step gs a resp gs')
  from step_called [OF reachable_step.hyps(2) reachable_step.prems]
  consider "calledNumbers game = []"
    | old where "gs roomId = Some old" "calledNumbers game = calledNumbers old"
    | old n where "gs roomId = Some old" "n \<in> {1..75} - set (calledNumbers old)"
        "calledNumbers game = calledNumbers old @ [n]"
    by blast
  then show ?case
  proof cases
    case 1
    then show ?thesis by simp
  next
    case 2
    with reachable_step.IH [OF 2(1)] show ?thesis by simp
  next
    case 3
    with reachable_step.IH [OF 3(1)] show ?thesis by simp
  qed
qed

text \<open>Along every sequence of events, the numbers returned for a room since its
  \<open>calledNumbers\<close> was last emptied are distinct numbers of 1..75, and they are the
  room's \<open>calledNumbers\<close>.\<close>

lemma log_step_inv:
  assumes st: "step gs a = Inr (resp, gs')"
    and d: "distinct seen" and r: "set seen \<subseteq> {1..75}"
    and c: "\<forall>game. gs roomId = Some game \<longrightarrow> calledNumbers game = seen"
  shows "distinct (log_step roomId seen a resp) \<and> set (log_step roomId seen a resp) \<subseteq> {1..75} \<and>
         (\<forall>game'. gs' roomId = Some game' \<longrightarrow> calledNumbers game' = log_step roomId seen a resp)"
proof (cases a)
  case (CreateRoom sid nm rid rnd)
  with st d r c show ?thesis
    by (cases "rid = roomId") (auto simp: create_room_def generateBoard_eq)
next
  case (JoinRoom sid rid nm rnd)
  with st d r c show ?thesis
    by (cases "rid = roomId")
       (auto simp: join_room_def generateBoard_eq Let_def split: option.splits if_splits)
next
  case (StartGame sid rid)
  with st d r c show ?thesis
    by (cases "rid = roomId") (auto simp: start_game_def split: option.splits if_splits)
next
  case (CallNumber sid rid rv)
  show ?thesis
  proof (cases "gs rid")
    case None
    with CallNumber st d r c show ?thesis by (auto simp: call_number_def)
  next
    case (Some old)
    show ?thesis
    proof (cases "\<exists>n. resp = OkNumber n")
      case True
      then obtain n where n: "resp = OkNumber n" by blast
      with CallNumber st have "call_number sid rid rv gs = Inr (OkNumber n, gs')" by simp
      from call_number_Ok [OF this Some]
      have fresh: "n \<in> {1..75} - set (calledNumbers old)"
        and gs': "gs' = gs(rid \<mapsto> old\<lparr>calledNumbers := calledNumbers old @ [n]\<rparr>)" by simp_all
      show ?thesis
      proof (cases "rid = roomId")
        case True
        with Some c have "calledNumbers old = seen" by simp
        with True CallNumber n fresh gs' d r show ?thesis by auto
      next
        case False
        with CallNumber n gs' d r c show ?thesis by auto
      qed
    next
      case False
      then have same: "log_step roomId seen a resp = seen"
        using CallNumber by (cases resp) auto
      from False CallNumber st Some have "gs' = gs"
        by (auto simp: call_number_def Let_def split: if_splits)
      with same d r c show ?thesis by simp
    qed
  qed
next
  case (MarkCell sid rid row col)
  with st d r c show ?thesis
    by (cases "rid = roomId") (auto simp: mark_cell_def Let_def split: option.splits if_splits)
next
  case (ClaimBingo sid rid)
  with st d r c show ?thesis
    by (cases "rid = roomId")
       (auto simp: claim_bingo_def split: option.splits sum.splits if_splits)
next
  case (Disconnect sid)
  with st d r c show ?thesis
    by (auto simp: disconnect_def Let_def split: option.splits if_splits)
qed

lemma called_log_inv:
  assumes "distinct seen" and "set seen \<subseteq> {1..75}"
    and "\<forall>game. gs roomId = Some game \<longrightarrow> calledNumbers game = seen"
  shows "distinct (called_log roomId seen gs acts) \<and> set (called_log roomId seen gs acts) \<subseteq> {1..75} \<and>
         (\<forall>gs' game'. run gs acts = Inr gs' \<and> gs' roomId = Some game' \<longrightarrow>
            calledNumbers game' = called_log roomId seen gs acts)"
  using assms
proof (induction acts arbitrary: seen gs)
  case Nil
  then show ?case by simp
next
  case (Cons a acts)
  show ?case
  proof (cases "step gs a")
    case (Inl e)
    with Cons.prems show ?thesis by simp
  next
    case (Inr p)
    obtain resp gs1 where p: "p = (resp, gs1)" by (cases p)
    with Inr have st: "step gs a = Inr (resp, gs1)" by simp
    from log_step_inv [OF st Cons.prems]
    have "distinct (log_step roomId seen a resp)" "set (log_step roomId seen a resp) \<subseteq> {1..75}"
      "\<forall>game'. gs1 roomId = Some game' \<longrightarrow> calledNumbers game' = log_step roomId seen a resp"
      by simp_all
    with Cons.IH [of "log_step roomId seen a resp" gs1] st show ?thesis by auto
  qed
qed

text \<open>
  C2, as the code has it. For every sequence of events from the empty registry and every
  room: the numbers returned by the successful \<^verbatim>\<open>call-number\<close> events on the room
  since its \<open>calledNumbers\<close> was last emptied (by \<^verbatim>\<open>create-room\<close>, or by a
  \<^verbatim>\<open>start-game\<close> of the host, which is accepted at any time) do not repeat, each is in
  \<open>[1, 75]\<close>, and each was appended to \<open>calledNumbers\<close>, which holds exactly these
  numbers in order; once \<open>calledNumbers\<close> holds 75 distinct values, the host's next
  \<^verbatim>\<open>call-number\<close> fails with \<^verbatim>\<open>All numbers called\<close> and leaves the registry as
  it is. Other events may come between the calls.
\<close>

theorem called_numbers_since_reset:
  "distinct (returned_since_reset roomId acts) \<and>
   (\<forall>n \<in> set (returned_since_reset roomId acts). 1 \<le> n \<and> n \<le> 75) \<and>
   (\<forall>gs game. run Map.empty acts = Inr gs \<and> gs roomId = Some game \<longrightarrow>
      calledNumbers game = returned_since_reset roomId acts \<and>
      (card (set (calledNumbers game)) = 75 \<longrightarrow>
         (\<forall>r. call_number (hostId game) roomId r gs = Inr (Fail AllNumbersCalled, gs))))"
proof -
  have inv: "distinct (called_log roomId [] Map.empty acts) \<and>
      set (called_log roomId [] Map.empty acts) \<subseteq> {1..75} \<and>
      (\<forall>gs' game'. run Map.empty acts = Inr gs' \<and> gs' roomId = Some game' \<longrightarrow>
            calledNumbers game' = called_log roomId [] Map.empty acts)"
    by (rule called_log_inv) simp_all
  have ex: "call_number (hostId game) roomId r gs = Inr (Fail AllNumbersCalled, gs)"
    if "run Map.empty acts = Inr gs" "gs roomId = Some game" "card (set (calledNumbers game)) = 75"
    for gs game r
  proof -
    from inv that(1,2) have "set (calledNumbers game) \<subseteq> {1..75}" by metis
    with that(2,3) show ?thesis by (intro call_number_exhausted)
  qed
  have rng: "\<forall>n \<in> set (returned_since_reset roomId acts). 1 \<le> n \<and> n \<le> 75"
    using inv by (auto simp: returned_since_reset_def)
  from inv rng ex show ?thesis
    unfolding returned_since_reset_def by blast
qed

text \<open>Alice calls in her fresh room, every random value 0: call \<open>j + 1\<close> returns
  \<open>j + 1\<close>.\<close>

lemma available_after_first:
  assumes "j \<le> 75"
  shows "availableNumbers (first_numbers j) = map (\<lambda>i. int i + 1) [j..<75]"
proof -
  have "[0..<75] = [0..<j] @ [j..<75]"
    using assms upt_add_eq_append [of 0 j "75 - j"] by simp
  moreover have "filter (\<lambda>i. \<not> i < j) [0..<j] = []" by simp
  moreover have "filter (\<lambda>i. \<not> i < j) [j..<75] = [j..<75]" by simp
  ultimately have f: "filter (\<lambda>i. \<not> i < j) [0..<75] = [j..<75]"
    by (metis append_Nil filter_append)
  have "(int i + 1 \<notin> set (first_numbers j)) = (\<not> i < j)" for i
    by (auto simp: first_numbers_def)
  then have "availableNumbers (first_numbers j) = map (\<lambda>i. int i + 1) (filter (\<lambda>i. \<not> i < j) [0..<75])"
    by (simp add: availableNumbers_def filter_map comp_def)
  with f show ?thesis by simp
qed

lemma first_numbers_Suc: "first_numbers (Suc j) = first_numbers j @ [int j + 1]"
  by (simp add: first_numbers_def)

lemma call_first:
  assumes "j < 75"
  shows "call_number ''alice'' ''room01'' (rand_frac 0 1) (called_games (first_numbers j)) =
           Inr (OkNumber (int j + 1), called_games (first_numbers (Suc j)))"
proof -
  have "[j..<75] = j # [Suc j..<75]" using assms by (simp add: upt_conv_Cons)
  then have "availableNumbers (first_numbers j) = (int j + 1) # map (\<lambda>i. int i + 1) [Suc j..<75]"
    using assms by (simp add: available_after_first)
  then show ?thesis
    by (simp add: call_number_def called_games_def alice_room_def random_index_rand_frac
          first_numbers_Suc Let_def)
qed

lemma run_calls:
  "j + k \<le> 75 \<Longrightarrow>
     run (called_games (first_numbers j)) (replicate k (CallNumber ''alice'' ''room01'' (rand_frac 0 1)))
       = Inr (called_games (first_numbers (j + k))) \<and>
     called_log ''room01'' (first_numbers j) (called_games (first_numbers j))
       (replicate k (CallNumber ''alice'' ''room01'' (rand_frac 0 1))) = first_numbers (j + k)"
proof (induction k arbitrary: j)
  case 0
  then show ?case by simp
next
  case (Suc k)
  then have "j < 75" and "Suc j + k \<le> 75" by simp_all
  from call_first [OF this(1)] Suc.IH [OF this(2)] show ?case
    by (simp add: first_numbers_Suc)
qed

text \<open>Alice's 75 calls return 1, ..., 75, and call 76 is refused.\<close>

theorem called_numbers_since_reset_witness:
  "run Map.empty calls75 = Inr (called_games (first_numbers 75)) \<and>
   returned_since_reset ''room01'' calls75 = first_numbers 75 \<and>
   distinct (first_numbers 75) \<and>
   call_number ''alice'' ''room01'' (rand_frac 1 2) (called_games (first_numbers 75)) =
     Inr (Fail AllNumbersCalled, called_games (first_numbers 75))"
proof -
  have e: "first_numbers 0 = []" by (simp add: first_numbers_def)
  have z: "called_games [] = alice_games"
    by (simp add: called_games_def alice_games_def alice_room_def)
  have c: "create_room ''alice'' ''Alice'' ''room01'' first_draws Map.empty = Inr (OkRoom ''room01'', alice_games)"
    by (simp add: create_room_def generateBoard_eq alice_games_def alice_room_def alice_player_def)
  have k: "run (called_games (first_numbers 0)) (replicate 75 (CallNumber ''alice'' ''room01'' (rand_frac 0 1)))
       = Inr (called_games (first_numbers (0 + 75))) \<and>
     called_log ''room01'' (first_numbers 0) (called_games (first_numbers 0))
       (replicate 75 (CallNumber ''alice'' ''room01'' (rand_frac 0 1))) = first_numbers (0 + 75)"
    by (rule run_calls) simp
  have r: "run Map.empty calls75 = Inr (called_games (first_numbers 75))"
    using k c by (simp add: calls75_def e z)
  have l: "returned_since_reset ''room01'' calls75 = first_numbers 75"
    using k c by (simp add: calls75_def returned_since_reset_def e z)
  have g: "called_games (first_numbers 75) ''room01'' = Some (alice_room\<lparr>calledNumbers := first_numbers 75\<rparr>)"
    by (simp add: called_games_def)
  from called_numbers_since_reset [of "''room01''" calls75] r g l
  have d: "distinct (first_numbers 75)"
    and x: "card (set (first_numbers 75)) = 75 \<longrightarrow>
       (\<forall>r. call_number (hostId (alice_room\<lparr>calledNumbers := first_numbers 75\<rparr>)) ''room01'' r
               (called_games (first_numbers 75))
             = Inr (Fail AllNumbersCalled, called_games (first_numbers 75)))"
    by auto
  have "length (first_numbers 75) = 75" by (simp add: first_numbers_def)
  with d have "card (set (first_numbers 75)) = 75" by (simp add: distinct_card)
  with x have "call_number ''alice'' ''room01'' (rand_frac 1 2) (called_games (first_numbers 75))
              = Inr (Fail AllNumbersCalled, called_games (first_numbers 75))"
    by (simp add: alice_room_def)
  with r l d show ?thesis by blast
qed

text \<open>
  C2 as stated fails: Alice calls a number, starts the game, and calls again. Both calls
  succeed and both return 1, because \<^verbatim>\<open>start-game\<close> empties \<open>calledNumbers\<close>.
\<close>

theorem number_repeats_after_restart:
  "replies Map.empty
     [CreateRoom ''alice'' ''Alice'' ''room01'' first_draws,
      CallNumber ''alice'' ''room01'' (rand_frac 0 1),
      StartGame ''alice'' ''room01'',
      CallNumber ''alice'' ''room01'' (rand_frac 0 1)]
   = [OkRoom ''room01'', OkNumber 1, Ok, OkNumber 1]"
proof -
  have "availableNumbers [] ! 0 = 1" "length (availableNumbers []) = 75" "availableNumbers [] \<noteq> []"
    by (simp_all add: availableNumbers_Nil nth_map [of 0] del: upt_Suc)
  then show ?thesis
    by (simp add: create_room_def generateBoard_eq call_number_def start_game_def Let_def
          random_index_rand_frac)
qed

section \<open>Game actions in the lobby\<close>

text \<open>While a number of 1..75 is left, the host's \<^verbatim>\<open>call-number\<close> is answered with one
  of them.\<close>

lemma call_number_accepted:
  assumes "gs roomId = Some game" and "\<exists>n \<in> {1..75}. n \<notin> set (calledNumbers game)"
  shows "\<exists>n. 1 \<le> n \<and> n \<le> 75 \<and> n \<notin> set (calledNumbers game) \<and>
           call_number (hostId game) roomId r gs =
             Inr (OkNumber n, gs(roomId \<mapsto> game\<lparr>calledNumbers := calledNumbers game @ [n]\<rparr>))"
proof -
  let ?av = "availableNumbers (calledNumbers game)"
  from assms(2) have "set ?av \<noteq> {}" by (auto simp: set_availableNumbers)
  then have ne: "?av \<noteq> []" by auto
  then have "random_index r (length ?av) < length ?av" by (intro random_index_less) simp
  then have "?av ! random_index r (length ?av) \<in> set ?av" by (rule nth_mem)
  then have "?av ! random_index r (length ?av) \<in> {1..75} - set (calledNumbers game)"
    by (simp only: set_availableNumbers)
  with assms(1) ne show ?thesis
    by (intro exI [of _ "?av ! random_index r (length ?av)"]) (simp add: call_number_def Let_def)
qed

text \<open>
  C10. On a room still in the lobby (\<open>started = False\<close>) the game actions are accepted:
  the host's \<^verbatim>\<open>call-number\<close> returns a number (while one is left), a member's
  \<^verbatim>\<open>mark-cell\<close> on a cell inside the board is answered \<^verbatim>\<open>ok\<close> and toggles the
  cell, and a member's \<^verbatim>\<open>claim-bingo\<close> with a complete line is answered \<^verbatim>\<open>ok\<close>
  and sets \<open>winnerId\<close>. In every case the three handlers answer exactly as they do on
  the same room in progress, and leave the same registry up to the flag, which stays
  \<open>False\<close>: none of them reads it. Only \<^verbatim>\<open>join-room\<close> is gated: it succeeds in the
  lobby and fails with \<^verbatim>\<open>Game already started\<close> once the flag is set.
\<close>

theorem lobby_actions_accepted:
  assumes "gs roomId = Some game" and "\<not> started game"
  shows "call_number sid roomId r gs =
           map_registry (set_started False roomId) (call_number sid roomId r (set_started True roomId gs))
       \<and> mark_cell sid roomId row col gs =
           map_registry (set_started False roomId) (mark_cell sid roomId row col (set_started True roomId gs))
       \<and> claim_bingo sid roomId gs =
           map_registry (set_started False roomId) (claim_bingo sid roomId (set_started True roomId gs))
       \<and> ((\<exists>n \<in> {1..75}. n \<notin> set (calledNumbers game)) \<longrightarrow>
            (\<exists>n. 1 \<le> n \<and> n \<le> 75 \<and> n \<notin> set (calledNumbers game) \<and>
               call_number (hostId game) roomId r gs =
                 Inr (OkNumber n, gs(roomId \<mapsto> game\<lparr>calledNumbers := calledNumbers game @ [n]\<rparr>))))
       \<and> (\<forall>player. players game sid = Some player \<and> wf_board (board player) \<and>
              0 \<le> row \<and> row < 5 \<and> 0 \<le> col \<and> col < 5 \<longrightarrow>
            (\<exists>cell. board player ! nat row ! nat col = Some cell \<and>
               mark_cell sid roomId row col gs =
                 Inr (Ok, gs(roomId \<mapsto> game\<lparr>players := (players game)(sid \<mapsto>
                        player\<lparr>board := set_cell (board player) (nat row) (nat col)
                          (Some (cell\<lparr>markedBy :=
                             (if markedBy cell = None \<or> markedBy cell = Some [] then Some sid
                              else None)\<rparr>))\<rparr>)\<rparr>))))
       \<and> (\<forall>player. players game sid = Some player \<and> wf_board (board player) \<and>
              win sid (board player) \<longrightarrow>
            claim_bingo sid roomId gs = Inr (Ok, gs(roomId \<mapsto> game\<lparr>winnerId := Some sid\<rparr>)))
       \<and> (\<exists>game'. join_room sid roomId nm rnd gs = Inr (OkGame game', gs(roomId \<mapsto> game')))
       \<and> join_room sid roomId nm rnd (set_started True roomId gs) =
           Inr (Fail GameAlreadyStarted, set_started True roomId gs)"
proof -
  from assms have same: "set_started False roomId gs = gs" by (simp add: set_started_same)
  have "call_number sid roomId r gs = call_number sid roomId r (set_started False roomId (set_started True roomId gs))"
    by (simp add: set_started_twice same)
  then have c1: "call_number sid roomId r gs =
           map_registry (set_started False roomId) (call_number sid roomId r (set_started True roomId gs))"
    by (simp only: call_number_started)
  have "mark_cell sid roomId row col gs = mark_cell sid roomId row col (set_started False roomId (set_started True roomId gs))"
    by (simp add: set_started_twice same)
  then have c2: "mark_cell sid roomId row col gs =
           map_registry (set_started False roomId) (mark_cell sid roomId row col (set_started True roomId gs))"
    by (simp only: mark_cell_started)
  have "claim_bingo sid roomId gs = claim_bingo sid roomId (set_started False roomId (set_started True roomId gs))"
    by (simp add: set_started_twice same)
  then have c3: "claim_bingo sid roomId gs =
           map_registry (set_started False roomId) (claim_bingo sid roomId (set_started True roomId gs))"
    by (simp only: claim_bingo_started)
  have a1: "(\<exists>n \<in> {1..75}. n \<notin> set (calledNumbers game)) \<longrightarrow>
            (\<exists>n. 1 \<le> n \<and> n \<le> 75 \<and> n \<notin> set (calledNumbers game) \<and>
               call_number (hostId game) roomId r gs =
                 Inr (OkNumber n, gs(roomId \<mapsto> game\<lparr>calledNumbers := calledNumbers game @ [n]\<rparr>)))"
    using call_number_accepted [of gs roomId game r] assms(1) by blast
  have a2: "\<forall>player. players game sid = Some player \<and> wf_board (board player) \<and>
              0 \<le> row \<and> row < 5 \<and> 0 \<le> col \<and> col < 5 \<longrightarrow>
            (\<exists>cell. board player ! nat row ! nat col = Some cell \<and>
               mark_cell sid roomId row col gs =
                 Inr (Ok, gs(roomId \<mapsto> game\<lparr>players := (players game)(sid \<mapsto>
                        player\<lparr>board := set_cell (board player) (nat row) (nat col)
                          (Some (cell\<lparr>markedBy :=
                             (if markedBy cell = None \<or> markedBy cell = Some [] then Some sid
                              else None)\<rparr>))\<rparr>)\<rparr>)))"
    using mark_cell_in_range [of gs roomId game sid _ row col] assms(1) by blast
  have a3: "\<forall>player. players game sid = Some player \<and> wf_board (board player) \<and>
              win sid (board player) \<longrightarrow>
            claim_bingo sid roomId gs = Inr (Ok, gs(roomId \<mapsto> game\<lparr>winnerId := Some sid\<rparr>))"
    using assms(1) by (simp add: claim_bingo_def hasBingo_win)
  have c4: "\<exists>game'. join_room sid roomId nm rnd gs = Inr (OkGame game', gs(roomId \<mapsto> game'))"
    using assms by (simp add: join_room_def generateBoard_eq Let_def)
  have c5: "join_room sid roomId nm rnd (set_started True roomId gs) =
           Inr (Fail GameAlreadyStarted, set_started True roomId gs)"
    using assms(1) by (simp add: join_room_def set_started_def)
  from c1 c2 c3 a1 a2 a3 c4 c5 show ?thesis by (intro conjI)
qed

text \<open>In the room of Alice and Bob, reached without any \<^verbatim>\<open>start-game\<close>: Alice's call
  returns a number, Bob marks the cell (0, 0), and Bob's claim on his complete row 2 is
  accepted.\<close>

theorem lobby_actions_accepted_witness:
  "run Map.empty both_complete = Inr row2_games \<and>
   row2_games ''room01'' = Some row2_room \<and> \<not> started row2_room \<and>
   (\<exists>n. call_number ''alice'' ''room01'' (rand_frac 1 2) row2_games =
      Inr (OkNumber n, row2_games(''room01'' \<mapsto> row2_room\<lparr>calledNumbers := [n]\<rparr>))) \<and>
   mark_cell ''bob'' ''room01'' 0 0 row2_games =
     Inr (Ok, row2_games(''room01'' \<mapsto> row2_room\<lparr>players := (players row2_room)(''bob'' \<mapsto>
            (row2_player ''bob'' ''Bob'')\<lparr>board := set_cell (row2_board ''bob'') 0 0
               (Some \<lparr>number = Some 1, markedBy = Some ''bob''\<rparr>)\<rparr>)\<rparr>)) \<and>
   claim_bingo ''bob'' ''room01'' row2_games =
     Inr (Ok, row2_games(''room01'' \<mapsto> row2_room\<lparr>winnerId := Some ''bob''\<rparr>))"
proof -
  have g: "row2_games ''room01'' = Some row2_room" and l: "\<not> started row2_room"
    by (simp_all add: row2_games_def row2_room_def alice_room_def)
  have h: "hostId row2_room = ''alice''" and c: "calledNumbers row2_room = []"
    by (simp_all add: row2_room_def alice_room_def)
  have p: "players row2_room ''bob'' = Some (row2_player ''bob'' ''Bob'')"
    by (simp add: row2_room_def)
  have b: "board (row2_player ''bob'' ''Bob'') = row2_board ''bob''"
    by (simp add: row2_player_def)
  have cell: "row2_board ''bob'' ! nat 0 ! nat 0 = Some \<lparr>number = Some 1, markedBy = None\<rparr>"
    by (simp add: row2_board_def first_board)
  note t = lobby_actions_accepted [of row2_games "''room01''" row2_room "''bob''" "rand_frac 1 2" 0 0
      "''Bob''" first_draws, OF g l]
  note t' = t [THEN conjunct2, THEN conjunct2, THEN conjunct2]
  have "\<exists>n \<in> {1..75::int}. n \<notin> set (calledNumbers row2_room)"
    by (simp add: c) (rule exI [of _ 1], simp)
  with t' [THEN conjunct1] h c
  have "\<exists>n. call_number ''alice'' ''room01'' (rand_frac 1 2) row2_games =
      Inr (OkNumber n, row2_games(''room01'' \<mapsto> row2_room\<lparr>calledNumbers := [n]\<rparr>))"
    by auto
  moreover from t' [THEN conjunct2, THEN conjunct1] p b cell wf_row2_board [of "''bob''"]
  have "mark_cell ''bob'' ''room01'' 0 0 row2_games =
     Inr (Ok, row2_games(''room01'' \<mapsto> row2_room\<lparr>players := (players row2_room)(''bob'' \<mapsto>
            (row2_player ''bob'' ''Bob'')\<lparr>board := set_cell (row2_board ''bob'') 0 0
               (Some \<lparr>number = Some 1, markedBy = Some ''bob''\<rparr>)\<rparr>)\<rparr>))"
    by auto
  moreover from t' [THEN conjunct2, THEN conjunct2, THEN conjunct1] p b
    wf_row2_board [of "''bob''"] win_row2_board [of "''bob''"]
  have "claim_bingo ''bob'' ''room01'' row2_games =
     Inr (Ok, row2_games(''room01'' \<mapsto> row2_room\<lparr>winnerId := Some ''bob''\<rparr>))"
    by auto
  ultimately show ?thesis using g l run_both_complete by blast
qed

end
